theory Spec2Isabelle
  imports Main "HOL-Library.Multiset" "HOL-Library.Stream"
begin

section \<open>Data model\<close>

text \<open>
  A cell is a (row, column) pair of Python integers. \<open>DifficultySettings\<close> is the
  dataclass of the source, with its six integer fields.
\<close>

type_synonym cell = "int \<times> int"

record DifficultySettings =
  r :: int
  c :: int
  endcl :: int
  pathl :: int
  distl :: int
  attemptc :: int

text \<open>The exceptions that the path generator can raise.\<close>

datatype error = ValueError | AssertionError | KeyError | IndexError

definition DIJS :: "(int \<times> int) list" where
  "DIJS = [(-1, 0), (0, 1), (1, 0), (0, -1)]"

fun dist :: "int \<Rightarrow> int \<Rightarrow> int \<Rightarrow> int \<Rightarrow> int" where
  "dist i1 j1 i2 j2 = \<bar>i1 - i2\<bar> + \<bar>j1 - j2\<bar>"

section \<open>The random source\<close>

text \<open>
  A \<open>Random\<close> object is modelled by the stream of the raw values it is going to
  deliver; a draw below \<open>n\<close> takes the next raw value modulo \<open>n\<close> and leaves the
  rest of the stream. Every sequence of results that the library generator can
  deliver is the behaviour of some stream, so a statement proved for all streams
  holds for every seed. All calls in the program have \<open>n > 0\<close>.
\<close>

type_synonym rng = "nat stream"

definition randbelow :: "nat \<Rightarrow> rng \<Rightarrow> nat \<times> rng" where
  "randbelow n g = (shd g mod n, stl g)"

text \<open>
  \<open>rand.shuffle\<close>: the library's loop
  \<^verbatim>\<open>for i in reversed(range(1, len(x))): j = randbelow(i + 1); x[i], x[j] = x[j], x[i]\<close>.
  \<open>shuffle_from k\<close> runs it for \<open>i = k, k - 1, ..., 1\<close>.
\<close>

fun shuffle_from :: "nat \<Rightarrow> 'a list \<Rightarrow> rng \<Rightarrow> 'a list \<times> rng" where
  "shuffle_from 0 xs g = (xs, g)"
| "shuffle_from (Suc i) xs g =
     (case randbelow (Suc (Suc i)) g of
        (j, g') \<Rightarrow> shuffle_from i (xs[Suc i := xs ! j, j := xs ! Suc i]) g')"

definition shuffle :: "'a list \<Rightarrow> rng \<Rightarrow> 'a list \<times> rng" where
  "shuffle xs g = shuffle_from (length xs - 1) xs g"

definition shuffled :: "rng \<Rightarrow> 'a list \<Rightarrow> 'a list \<times> rng" where
  "shuffled g seq = shuffle seq g"

text \<open>
  \<open>randpop\<close> swaps the drawn position with the last one and pops it; the result is
  the popped element, the list that is left and the generator.
\<close>

definition randpop :: "rng \<Rightarrow> 'a list \<Rightarrow> error + ('a \<times> 'a list \<times> rng)" where
  "randpop g seq =
     (if seq = [] then Inl ValueError
      else case randbelow (length seq) g of
        (idx, g') \<Rightarrow> Inr (seq ! idx, butlast (seq[idx := last seq]), g'))"

section \<open>The strand builder\<close>

record gen_state =
  adj :: "cell \<rightharpoonup> cell list"
  strands :: "cell list list"
  strandi :: "cell \<rightharpoonup> nat"
  rand :: rng

text \<open>The cells of the grid in the order of the source's double \<open>range\<close> loop.\<close>

definition cells :: "int \<Rightarrow> int \<Rightarrow> cell list" where
  "cells rows cols = List.product [0..rows - 1] [0..cols - 1]"

definition init_state :: "int \<Rightarrow> int \<Rightarrow> rng \<Rightarrow> gen_state" where
  "init_state rows cols g =
     \<lparr>adj = map_of (map (\<lambda>x. (x, [])) (cells rows cols)),
      strands = [], strandi = Map.empty, rand = g\<rparr>"

text \<open>The slice \<open>seq[:n]\<close> of Python, where a negative \<open>n\<close> counts from the end.\<close>

definition slice_to :: "int \<Rightarrow> 'a list \<Rightarrow> 'a list" where
  "slice_to n xs = (if 0 \<le> n then take (nat n) xs else take (length xs - nat (- n)) xs)"

text \<open>Each seed becomes a new one-cell strand and is entered into \<open>strandi\<close>.\<close>

fun seed_all :: "cell list \<Rightarrow> gen_state \<Rightarrow> gen_state" where
  "seed_all [] st = st"
| "seed_all (x # xs) st =
     seed_all xs (st\<lparr>strandi := (strandi st)(x \<mapsto> length (strands st)),
                     strands := strands st @ [[x]]\<rparr>)"

definition good_neighbors :: "int \<Rightarrow> int \<Rightarrow> (cell \<rightharpoonup> nat) \<Rightarrow> cell \<Rightarrow> cell list" where
  "good_neighbors rows cols si x =
     filter (\<lambda>(ni, nj). 0 \<le> ni \<and> ni < rows \<and> 0 \<le> nj \<and> nj < cols \<and> si (ni, nj) = None)
       (map (\<lambda>(di, dj). (fst x + di, snd x + dj)) DIJS)"

text \<open>
  The body of \<open>if neighs\<close>: the two appends to \<open>adj\<close>, the copy of the strand index
  and the append to the strand. A missing key or an index out of range raises.
\<close>

definition attach :: "cell \<Rightarrow> cell \<Rightarrow> gen_state \<Rightarrow> error + gen_state" where
  "attach x n st =
     (case adj st x of None \<Rightarrow> Inl KeyError | Some xs \<Rightarrow>
        let adj1 = (adj st)(x \<mapsto> xs @ [n]) in
        (case adj1 n of None \<Rightarrow> Inl KeyError | Some ns \<Rightarrow>
           let adj2 = adj1(n \<mapsto> ns @ [x]) in
           (case strandi st x of None \<Rightarrow> Inl KeyError | Some k \<Rightarrow>
              if k < length (strands st)
              then Inr (st\<lparr>adj := adj2, strandi := (strandi st)(n \<mapsto> k),
                           strands := (strands st)[k := strands st ! k @ [n]]\<rparr>)
              else Inl IndexError)))"

text \<open>One iteration of \<open>while seeds\<close>; the result is the new frontier and state.\<close>

definition grow_step ::
    "int \<Rightarrow> int \<Rightarrow> cell list \<Rightarrow> gen_state \<Rightarrow> error + (cell list \<times> gen_state)" where
  "grow_step rows cols seeds st =
     (case randpop (rand st) seeds of Inl e \<Rightarrow> Inl e
      | Inr (x, seeds', g1) \<Rightarrow>
          if strandi st x = None then Inl AssertionError
          else let neighs = good_neighbors rows cols (strandi st) x in
            if neighs = [] then Inr (seeds', st\<lparr>rand := g1\<rparr>)
            else (case randbelow (length neighs) g1 of
                    (k, g2) \<Rightarrow>
                      (case attach x (neighs ! k) (st\<lparr>rand := g2\<rparr>) of
                         Inl e \<Rightarrow> Inl e
                       | Inr st' \<Rightarrow> Inr (seeds' @ [neighs ! k], st'))))"

subsection \<open>The frontier loop and its termination\<close>

text \<open>
  The loop \<open>while seeds\<close> always terminates: an iteration either attaches a cell
  that was not assigned, or only shortens the frontier.
\<close>

lemma attach_strandi:
  "attach x n st = Inr st' \<Longrightarrow> \<exists>k. strandi st' = (strandi st)(n \<mapsto> k)"
  by (auto simp: attach_def Let_def split: option.splits if_splits)

lemma randpop_length:
  "randpop g seq = Inr (x, seq', g') \<Longrightarrow> length seq' < length seq"
  by (auto simp: randpop_def split: if_splits prod.splits)

lemma set_cells: "set (cells rows cols) = {(i, j). 0 \<le> i \<and> i < rows \<and> 0 \<le> j \<and> j < cols}"
  by (auto simp: cells_def)

lemma good_neighbors_D:
  "n \<in> set (good_neighbors rows cols si x) \<Longrightarrow> n \<in> set (cells rows cols) \<and> si n = None"
  by (auto simp: good_neighbors_def set_cells)

lemma randbelow_less: "0 < n \<Longrightarrow> fst (randbelow n g) < n"
  by (simp add: randbelow_def)

lemma grow_step_cases:
  assumes "grow_step rows cols seeds st = Inr (seeds', st')"
  shows "(strandi st' = strandi st \<and> length seeds' < length seeds) \<or>
         (\<exists>n k. n \<in> set (cells rows cols) \<and> strandi st n = None \<and> strandi st' = (strandi st)(n \<mapsto> k))"
proof -
  from assms obtain x s1 g1 where rp: "randpop (rand st) seeds = Inr (x, s1, g1)"
    by (auto simp: grow_step_def split: sum.splits)
  let ?neighs = "good_neighbors rows cols (strandi st) x"
  show ?thesis
  proof (cases "?neighs = []")
    case True
    with assms rp have "seeds' = s1" "strandi st' = strandi st"
      by (auto simp: grow_step_def split: if_splits)
    with randpop_length[OF rp] show ?thesis by simp
  next
    case False
    obtain k g2 where rb: "randbelow (length ?neighs) g1 = (k, g2)" by (cases "randbelow (length ?neighs) g1")
    with False have k: "k < length ?neighs" using randbelow_less[of "length ?neighs" g1] by simp
    from assms rp False rb have "attach x (?neighs ! k) (st\<lparr>rand := g2\<rparr>) = Inr st'"
      by (auto simp: grow_step_def Let_def split: if_splits sum.splits)
    from attach_strandi[OF this] obtain kk where "strandi st' = (strandi st)(?neighs ! k \<mapsto> kk)" by auto
    moreover have "?neighs ! k \<in> set ?neighs" using k by simp
    ultimately show ?thesis using good_neighbors_D by blast
  qed
qed

text \<open>The loop \<open>while seeds\<close>: it runs \<open>grow_step\<close> until the frontier is empty.\<close>

function grow :: "int \<Rightarrow> int \<Rightarrow> cell list \<Rightarrow> gen_state \<Rightarrow> error + gen_state" where
  "grow rows cols seeds st =
     (if seeds = [] then Inr st
      else case grow_step rows cols seeds st of Inl e \<Rightarrow> Inl e
           | Inr (seeds', st') \<Rightarrow> grow rows cols seeds' st')"
  by pat_completeness auto
termination
proof (relation "measures [\<lambda>(rows, cols, seeds, st). card {x \<in> set (cells rows cols). strandi st x = None},
     \<lambda>(rows, cols, seeds, st). length seeds]", goal_cases)
  case 1
  show ?case by simp
next
  case (2 rows cols seeds st b seeds' st')
  then have gs: "grow_step rows cols seeds st = Inr (seeds', st')" by simp
  from grow_step_cases[OF gs] show ?case
  proof
    assume "strandi st' = strandi st \<and> length seeds' < length seeds"
    then show ?thesis by simp
  next
    assume "\<exists>n k. n \<in> set (cells rows cols) \<and> strandi st n = None \<and> strandi st' = (strandi st)(n \<mapsto> k)"
    then obtain n k where n: "n \<in> set (cells rows cols)" "strandi st n = None"
      and st': "strandi st' = (strandi st)(n \<mapsto> k)" by blast
    have "{x \<in> set (cells rows cols). strandi st' x = None} \<subset> {x \<in> set (cells rows cols). strandi st x = None}"
      using n st' by auto
    then have "card {x \<in> set (cells rows cols). strandi st' x = None} < card {x \<in> set (cells rows cols). strandi st x = None}"
      by (intro psubset_card_mono) auto
    then show ?thesis by simp
  qed
qed

text \<open>
  One round of \<open>while len(strandi) < r * c\<close>: the unassigned cells are shuffled,
  the first \<open>endcl\<close> of them are seeded, the frontier holds every seed twice, the
  frontier loop runs, and the strands of one cell are dropped from \<open>strands\<close>.
\<close>

definition build_round :: "DifficultySettings \<Rightarrow> gen_state \<Rightarrow> error + gen_state" where
  "build_round s st =
     (case shuffled (rand st) (filter (\<lambda>x. strandi st x = None) (cells (r s) (c s))) of
        (all_seeds, g1) \<Rightarrow>
          let seeds = slice_to (endcl s) all_seeds;
              st1 = seed_all seeds (st\<lparr>rand := g1\<rparr>)
          in (case grow (r s) (c s) (seeds @ seeds) st1 of Inl e \<Rightarrow> Inl e
              | Inr st2 \<Rightarrow> Inr (st2\<lparr>strands := filter (\<lambda>strand. length strand > 1) (strands st2)\<rparr>)))"

text \<open>
  The state at the end of \<open>while seeds\<close> in one round, before the one-cell strands
  are dropped from \<open>strands\<close>.
\<close>
definition round_grow :: "DifficultySettings \<Rightarrow> gen_state \<Rightarrow> error + gen_state" where
  "round_grow s st =
     (case shuffled (rand st) (filter (\<lambda>x. strandi st x = None) (cells (r s) (c s))) of
        (all_seeds, g1) \<Rightarrow>
          let seeds = slice_to (endcl s) all_seeds;
              st1 = seed_all seeds (st\<lparr>rand := g1\<rparr>)
          in grow (r s) (c s) (seeds @ seeds) st1)"

text \<open>
  The outer loop. It need not terminate (with \<open>endcl \<le> 0\<close> no cell is ever seeded),
  so the result is an option: \<open>None\<close> when the loop runs forever, \<open>Some (Inl e)\<close> when
  an exception is raised, \<open>Some (Inr st)\<close> when it exits in state \<open>st\<close>.
\<close>

partial_function (option) build_strands ::
    "DifficultySettings \<Rightarrow> gen_state \<Rightarrow> (error + gen_state) option" where
  "build_strands s st =
     (if int (card (dom (strandi st))) < r s * c s
      then (case build_round s st of Inl e \<Rightarrow> Some (Inl e) | Inr st' \<Rightarrow> build_strands s st')
      else Some (Inr st))"

section \<open>The path extractor\<close>

text \<open>
  The list comprehension \<open>[cell for cell in strand if len(adj[cell]) == 1]\<close> at the
  head of \<open>cleanse\<close>.
\<close>

definition degree_one :: "(cell \<rightharpoonup> cell list) \<Rightarrow> cell list \<Rightarrow> error + cell list" where
  "degree_one A strand =
     (if list_ex (\<lambda>x. A x = None) strand then Inl KeyError
      else Inr (filter (\<lambda>x. length (the (A x)) = 1) strand))"

text \<open>
  The loop \<open>while seq[-1] != ecell\<close>. The set \<open>{*adj[seq[-1]]} - {seq[-2]}\<close> must have
  exactly one element, which is appended. On an arbitrary adjacency the loop can
  run forever, hence the option.
\<close>

partial_function (option) walk ::
    "(cell \<rightharpoonup> cell list) \<Rightarrow> cell \<Rightarrow> cell list \<Rightarrow> (error + cell list) option" where
  "walk A ecell seq =
     (if last seq = ecell then Some (Inr seq)
      else case A (last seq) of None \<Rightarrow> Some (Inl KeyError)
           | Some ns \<Rightarrow>
               (case remdups (filter (\<lambda>y. y \<noteq> last (butlast seq)) ns) of
                  [ccell] \<Rightarrow> walk A ecell (seq @ [ccell])
                | _ \<Rightarrow> Some (Inl ValueError)))"

text \<open>
  The loop \<open>for _ in range(ct)\<close>: a draw below 2 decides between \<open>popleft\<close> (draw
  not 0) and \<open>pop\<close>; either raises on an empty deque.
\<close>

fun trim :: "nat \<Rightarrow> cell list \<Rightarrow> rng \<Rightarrow> error + (cell list \<times> rng)" where
  "trim 0 seq g = Inr (seq, g)"
| "trim (Suc n) seq g =
     (case randbelow 2 g of
        (b, g') \<Rightarrow> if seq = [] then Inl IndexError
                   else trim n (if b \<noteq> 0 then tl seq else butlast seq) g')"

text \<open>
  \<open>cleanse\<close>: the two cells of degree one, the walk from \<open>[scell, scell]\<close>, the trim
  count \<open>min(len(seq) - distl, 2)\<close>, replaced by a draw from \<open>[0, ct]\<close> when positive,
  the trimming, and the final \<open>popleft\<close>.
\<close>

definition cleanse ::
    "DifficultySettings \<Rightarrow> (cell \<rightharpoonup> cell list) \<Rightarrow> cell list \<Rightarrow> rng
      \<Rightarrow> (error + cell list \<times> rng) option" where
  "cleanse s A strand g =
     (case degree_one A strand of Inl e \<Rightarrow> Some (Inl e)
      | Inr [scell, ecell] \<Rightarrow>
          (case walk A ecell [scell, scell] of None \<Rightarrow> None
           | Some (Inl e) \<Rightarrow> Some (Inl e)
           | Some (Inr seq) \<Rightarrow>
               let ct = min (int (length seq) - distl s) 2 in
               (case (if ct > 0 then (case randbelow (nat ct + 1) g of (t, g') \<Rightarrow> (int t, g'))
                      else (ct, g)) of
                  (ct, g1) \<Rightarrow>
                    (case trim (nat ct) seq g1 of Inl e \<Rightarrow> Some (Inl e)
                     | Inr (seq', g2) \<Rightarrow>
                         if seq' = [] then Some (Inl IndexError)
                         else Some (Inr (tl seq', g2)))))
      | Inr _ \<Rightarrow> Some (Inl ValueError))"

text \<open>The generator expression \<open>cleanse(strand) for strand in ...\<close>, run in order.\<close>

fun cleanse_all ::
    "DifficultySettings \<Rightarrow> (cell \<rightharpoonup> cell list) \<Rightarrow> cell list list \<Rightarrow> rng
      \<Rightarrow> (error + cell list list \<times> rng) option" where
  "cleanse_all s A [] g = Some (Inr ([], g))"
| "cleanse_all s A (strand # rest) g =
     (case cleanse s A strand g of None \<Rightarrow> None
      | Some (Inl e) \<Rightarrow> Some (Inl e)
      | Some (Inr (p, g1)) \<Rightarrow>
          (case cleanse_all s A rest g1 of None \<Rightarrow> None
           | Some (Inl e) \<Rightarrow> Some (Inl e)
           | Some (Inr (ps, g2)) \<Rightarrow> Some (Inr (p # ps, g2))))"

section \<open>Attempts and the search\<close>

text \<open>
  \<open>_try_generating_paths\<close>: the strand builder, the shuffle of the strands, the
  stable sort by descending length, the cleansing of the first \<open>endcl\<close> strands
  (\<open>islice\<close> raises on a negative count) and the shuffle of the paths.
\<close>

definition try_generating_paths ::
    "DifficultySettings \<Rightarrow> rng \<Rightarrow> (error + cell list list \<times> rng) option" where
  "try_generating_paths s g =
     (case build_strands s (init_state (r s) (c s) g) of None \<Rightarrow> None
      | Some (Inl e) \<Rightarrow> Some (Inl e)
      | Some (Inr st) \<Rightarrow>
          (case shuffle (strands st) (rand st) of
             (sh, g1) \<Rightarrow>
               let sorted_strands = sort_key (\<lambda>strand. - int (length strand)) sh in
               if endcl s < 0 then Some (Inl ValueError)
               else (case cleanse_all s (adj st) (take (nat (endcl s)) sorted_strands) g1 of
                       None \<Rightarrow> None
                     | Some (Inl e) \<Rightarrow> Some (Inl e)
                     | Some (Inr (ps, g2)) \<Rightarrow> Some (Inr (shuffled g2 ps)))))"

text \<open>
  \<open>_acceptable\<close>: \<open>all(...)\<close> stops at the first path that fails; \<open>path[0]\<close> raises
  on a path without cells when the length test lets it through.
\<close>

fun acceptable :: "DifficultySettings \<Rightarrow> cell list list \<Rightarrow> error + bool" where
  "acceptable s [] = Inr True"
| "acceptable s (path # paths) =
     (if pathl s \<le> int (length path)
      then (if path = [] then Inl IndexError
            else if distl s \<le> dist (fst (hd path)) (snd (hd path)) (fst (last path)) (snd (last path))
                 then acceptable s paths else Inr False)
      else Inr False)"

text \<open>
  \<open>_generate_acceptable_paths\<close> under \<open>islice(..., n)\<close>: the first \<open>n\<close> attempts that
  the generator yields, appended to \<open>acc\<close>. A rejected attempt is dropped and the
  loop goes on with the generator as the attempt left it.
\<close>

partial_function (option) generate_acceptable_paths ::
    "DifficultySettings \<Rightarrow> nat \<Rightarrow> cell list list list \<Rightarrow> rng
      \<Rightarrow> (error + cell list list list \<times> rng) option" where
  "generate_acceptable_paths s n acc g =
     (if n = 0 then Some (Inr (acc, g))
      else case try_generating_paths s g of None \<Rightarrow> None
           | Some (Inl e) \<Rightarrow> Some (Inl e)
           | Some (Inr (paths, g')) \<Rightarrow>
               (case acceptable s paths of Inl e \<Rightarrow> Some (Inl e)
                | Inr ok \<Rightarrow>
                    if ok then generate_acceptable_paths s (n - 1) (acc @ [paths]) g'
                    else generate_acceptable_paths s n acc g'))"

text \<open>
  \<open>max(..., key=...)\<close> on a non-empty sequence: the running best is replaced only
  by an item with a strictly greater key.
\<close>

fun max_by :: "('a \<Rightarrow> 'q::linorder) \<Rightarrow> 'a \<Rightarrow> 'a list \<Rightarrow> 'a" where
  "max_by key best [] = best"
| "max_by key best (x # xs) = max_by key (if key best < key x then x else best) xs"

text \<open>
  \<open>generate_paths\<close>. The key \<open>_quality\<close> of the source is a floating-point sum of
  \<open>len(path) ** 1.5\<close>; here the key is the parameter \<open>quality\<close>, any function into a
  linear order. \<open>islice\<close> raises on a negative count and \<open>max\<close> on an empty
  sequence.
\<close>

definition generate_paths ::
    "(cell list list \<Rightarrow> 'q::linorder) \<Rightarrow> DifficultySettings \<Rightarrow> rng
      \<Rightarrow> (error + cell list list \<times> rng) option" where
  "generate_paths quality s g =
     (if attemptc s < 0 then Some (Inl ValueError)
      else case generate_acceptable_paths s (nat (attemptc s)) [] g of None \<Rightarrow> None
           | Some (Inl e) \<Rightarrow> Some (Inl e)
           | Some (Inr (attempts, g')) \<Rightarrow>
               (case attempts of [] \<Rightarrow> Some (Inl ValueError)
                | a # rest \<Rightarrow> Some (Inr (max_by quality a rest, g'))))"

section \<open>Concrete inputs\<close>

text \<open>A one-row grid of three cells with two seeds per round, for running the code.\<close>

definition tiny :: DifficultySettings where
  "tiny = \<lparr>r = 1, c = 3, endcl = 2, pathl = 1, distl = 1, attemptc = 1\<rparr>"

text \<open>The state in which the strand builder leaves that grid when every draw is 0.\<close>

definition tiny_final :: gen_state where
  "tiny_final = \<lparr>adj = [(0, 2) \<mapsto> [], (0, 1) \<mapsto> [(0, 0)], (0, 0) \<mapsto> [(0, 1)]],
      strands = [[(0, 1), (0, 0)]],
      strandi = [(0, 1) \<mapsto> 0, (0, 2) \<mapsto> Suc 0, (0, 0) \<mapsto> 0],
      rand = sconst 0\<rparr>"

text \<open>A one-row grid of four cells, which two strands of two cells cover.\<close>

definition quad :: DifficultySettings where
  "quad = \<lparr>r = 1, c = 4, endcl = 2, pathl = 2, distl = 1, attemptc = 1\<rparr>"

text \<open>The state in which the strand builder leaves the four-cell grid when every draw is 0.\<close>

definition quad_final :: gen_state where
  "quad_final =
     \<lparr>adj = [(0, 1) \<mapsto> [(0, 0)], (0, 0) \<mapsto> [(0, 1)], (0, 2) \<mapsto> [(0, 3)], (0, 3) \<mapsto> [(0, 2)]],
      strands = [[(0, 1), (0, 0)], [(0, 2), (0, 3)]],
      strandi = [(0, 1) \<mapsto> 0, (0, 2) \<mapsto> Suc 0, (0, 0) \<mapsto> 0, (0, 3) \<mapsto> Suc 0],
      rand = sconst 0\<rparr>"

text \<open>The three-cell grid again, with paths of fewer than two cells rejected.\<close>

definition picky :: DifficultySettings where
  "picky = \<lparr>r = 1, c = 3, endcl = 2, pathl = 2, distl = 1, attemptc = 1\<rparr>"

text \<open>
  Generators for the three-cell grid. One run of the strand builder takes eight
  draws there. \<open>two_runs\<close> makes the first attempt trim its path to one cell and the
  second attempt keep both cells.
\<close>

definition zeros8 :: "rng \<Rightarrow> rng" where
  "zeros8 g = 0 ## 0 ## 0 ## 0 ## 0 ## 0 ## 0 ## 0 ## g"

definition two_runs :: rng where
  "two_runs = zeros8 (Suc 0 ## 0 ## zeros8 (0 ## sconst 0))"

text \<open>
  The state in which the builder leaves the three-cell grid when the shuffle puts
  the cell \<open>(0, 2)\<close>, which cannot grow, in front of \<open>(0, 1)\<close>.
\<close>

definition tiny_shifted :: gen_state where
  "tiny_shifted =
     \<lparr>adj = [(0, 2) \<mapsto> [], (0, 1) \<mapsto> [(0, 0)], (0, 0) \<mapsto> [(0, 1)]],
      strands = [[(0, 1), (0, 0)]],
      strandi = [(0, 2) \<mapsto> 0, (0, 1) \<mapsto> Suc 0, (0, 0) \<mapsto> Suc 0],
      rand = sconst 0\<rparr>"

text \<open>The state \<open>tiny_final\<close> with generator \<open>g\<close> left over.\<close>

definition tiny_left :: "rng \<Rightarrow> gen_state" where
  "tiny_left g =
     \<lparr>adj = [(0, 2) \<mapsto> [], (0, 1) \<mapsto> [(0, 0)], (0, 0) \<mapsto> [(0, 1)]],
      strands = [[(0, 1), (0, 0)]],
      strandi = [(0, 1) \<mapsto> 0, (0, 2) \<mapsto> Suc 0, (0, 0) \<mapsto> 0],
      rand = g\<rparr>"

text \<open>A key to rank attempts by when the code is run on concrete inputs.\<close>

definition cell_count :: "cell list list \<Rightarrow> nat" where
  "cell_count paths = length (concat paths)"

text \<open>The state of the three-cell grid at the end of that round's frontier loop.\<close>

definition tiny_grown :: gen_state where
  "tiny_grown =
     \<lparr>adj = [(0, 2) \<mapsto> [], (0, 1) \<mapsto> [(0, 0)], (0, 0) \<mapsto> [(0, 1)]],
      strands = [[(0, 2)], [(0, 1), (0, 0)]],
      strandi = [(0, 2) \<mapsto> 0, (0, 1) \<mapsto> Suc 0, (0, 0) \<mapsto> Suc 0],
      rand = sconst 0\<rparr>"

text \<open>
  The three-cell grid with no lower limit on the number of cells of a path, and a
  generator that makes the first attempt trim its only strand to nothing: the
  eight draws of the strand builder, a trim amount of 2 and two units that both
  remove from the back.
\<close>

definition loose :: DifficultySettings where
  "loose = \<lparr>r = 1, c = 3, endcl = 2, pathl = 0, distl = 1, attemptc = 1\<rparr>"

definition empty_run :: rng where
  "empty_run = zeros8 (2 ## 0 ## 0 ## sconst 0)"

section \<open>Path shape and loop invariants\<close>

text \<open>
  Two cells are adjacent when they differ by one of the offsets in \<open>DIJS\<close>.
  \<open>nbrs p k\<close> lists the cells next to position \<open>k\<close> in the sequence \<open>p\<close>, and
  \<open>is_path A p\<close> says that \<open>p\<close> is a sequence of distinct cells, consecutive ones
  adjacent in the grid, in which the adjacency list of every cell holds exactly
  its neighbours in the sequence.
\<close>

definition adjacent :: "cell \<Rightarrow> cell \<Rightarrow> bool" where
  "adjacent a b \<longleftrightarrow> b \<in> set (map (\<lambda>(di, dj). (fst a + di, snd a + dj)) DIJS)"

definition nbrs :: "'a list \<Rightarrow> nat \<Rightarrow> 'a list" where
  "nbrs p k = (if 0 < k then [p ! (k - 1)] else []) @ (if Suc k < length p then [p ! Suc k] else [])"

definition is_path :: "(cell \<rightharpoonup> cell list) \<Rightarrow> cell list \<Rightarrow> bool" where
  "is_path A p \<longleftrightarrow>
     p \<noteq> [] \<and> distinct p \<and> successively adjacent p \<and>
     (\<forall>k<length p. \<exists>ns. A (p ! k) = Some ns \<and> mset ns = mset (nbrs p k))"


text \<open>
  \<open>inv_state\<close> holds at the head of the \<open>while len(strandi) < r * c\<close> loop;
  \<open>inv_grow\<close> holds inside \<open>while seeds\<close>, where \<open>base\<close> is the number of strands
  that existed when the round began and \<open>seeds\<close> is the frontier. A frontier cell
  occurs in the frontier at most as often as it has free ends.
\<close>

definition inv_state :: "int \<Rightarrow> int \<Rightarrow> gen_state \<Rightarrow> bool" where
  "inv_state rows cols st \<longleftrightarrow>
     dom (adj st) = set (cells rows cols) \<and>
     dom (strandi st) \<subseteq> set (cells rows cols) \<and>
     (\<forall>x\<in>set (cells rows cols). strandi st x = None \<longrightarrow> adj st x = Some []) \<and>
     set (concat (strands st)) \<subseteq> dom (strandi st) \<and>
     distinct (concat (strands st)) \<and>
     (\<forall>s\<in>set (strands st). \<exists>p. mset p = mset s \<and> is_path (adj st) p)"

definition inv_grow :: "int \<Rightarrow> int \<Rightarrow> nat \<Rightarrow> cell list \<Rightarrow> gen_state \<Rightarrow> bool" where
  "inv_grow rows cols base seeds st \<longleftrightarrow>
     inv_state rows cols st \<and>
     (\<forall>k. base \<le> k \<longrightarrow> k < length (strands st) \<longrightarrow>
        (\<forall>x\<in>set (strands st ! k). strandi st x = Some k)) \<and>
     (\<forall>x\<in>set seeds.
        (\<exists>k. base \<le> k \<and> k < length (strands st) \<and> x \<in> set (strands st ! k)) \<and>
        (\<exists>ns. adj st x = Some ns \<and> length ns + count (mset seeds) x \<le> 2))"


text \<open>The states at the head of the outer loop during the run from generator \<open>g\<close>.\<close>

inductive loop_state :: "DifficultySettings \<Rightarrow> rng \<Rightarrow> gen_state \<Rightarrow> bool" for s g where
  start: "loop_state s g (init_state (r s) (c s) g)"
| round: "loop_state s g st \<Longrightarrow> int (card (dom (strandi st))) < r s * c s \<Longrightarrow>
          build_round s st = Inr st' \<Longrightarrow> loop_state s g st'"


text \<open>
  Every cell entered into \<open>strandi\<close> since the round began (the cells outside \<open>D\<close>)
  carries the index, in the present \<open>strands\<close> list, of the strand that holds it.
\<close>
definition new_index :: "cell set \<Rightarrow> gen_state \<Rightarrow> bool" where
  "new_index D st \<longleftrightarrow>
     (\<forall>x k. strandi st x = Some k \<longrightarrow> x \<notin> D \<longrightarrow>
        k < length (strands st) \<and> x \<in> set (strands st ! k))"

text \<open>
  The trimming of \<open>cleanse\<close>, read off the generator: how many of the first \<open>n\<close>
  trim units remove from the front, and the trim amount drawn for a strand.
\<close>

definition front_pops :: "nat \<Rightarrow> rng \<Rightarrow> nat" where
  "front_pops n g = length (filter (\<lambda>x. x mod 2 \<noteq> 0) (stake n g))"


text \<open>
  The trim amount of \<open>cleanse\<close> for a strand of \<open>L\<close> cells: the bound is computed from
  the walk sequence, which holds \<open>L + 1\<close> entries because the start cell is entered
  twice.
\<close>
definition trim_bound :: "DifficultySettings \<Rightarrow> nat \<Rightarrow> int" where
  "trim_bound s L = min (int L + 1 - distl s) 2"

definition trim_amount :: "DifficultySettings \<Rightarrow> nat \<Rightarrow> rng \<Rightarrow> nat" where
  "trim_amount s L g = (if 0 < trim_bound s L then shd g mod (nat (trim_bound s L) + 1) else 0)"

definition trim_rng :: "DifficultySettings \<Rightarrow> nat \<Rightarrow> rng \<Rightarrow> rng" where
  "trim_rng s L g = (if 0 < trim_bound s L then stl g else g)"

text \<open>
  The first \<open>k\<close> attempts from generator \<open>g\<close>, when each of them returns, and the
  generator they leave.
\<close>
fun run_tries :: "DifficultySettings \<Rightarrow> nat \<Rightarrow> rng \<Rightarrow> (cell list list list \<times> rng) option" where
  "run_tries s 0 g = Some ([], g)"
| "run_tries s (Suc k) g =
     (case try_generating_paths s g of
        Some (Inr (paths, g1)) \<Rightarrow>
          (case run_tries s k g1 of Some (rest, g2) \<Rightarrow> Some (paths # rest, g2) | None \<Rightarrow> None)
      | _ \<Rightarrow> None)"

text \<open>An attempt is accepted when \<open>_acceptable\<close> returns \<open>True\<close> for it; a path is in order when it meets both limits.\<close>

definition accepted :: "DifficultySettings \<Rightarrow> cell list list \<Rightarrow> bool" where
  "accepted s paths \<longleftrightarrow> acceptable s paths = Inr True"

definition path_ok :: "DifficultySettings \<Rightarrow> cell list \<Rightarrow> bool" where
  "path_ok s path \<longleftrightarrow>
     pathl s \<le> int (length path) \<and> path \<noteq> [] \<and>
     distl s \<le> dist (fst (hd path)) (snd (hd path)) (fst (last path)) (snd (last path))"


text \<open>
  A result with the generator in it replaced by the one that is left of \<open>h\<close> after
  \<open>k\<close> draws: what a run gives from \<open>h\<close> when it makes \<open>k\<close> draws and these have the
  values that led to the result.
\<close>

definition reseat :: "nat \<Rightarrow> rng \<Rightarrow> error + 'a \<times> rng \<Rightarrow> error + 'a \<times> rng" where
  "reseat k h res = map_sum id (\<lambda>p. (fst p, sdrop k h)) res"

definition reseat_state :: "nat \<Rightarrow> rng \<Rightarrow> error + gen_state \<Rightarrow> error + gen_state" where
  "reseat_state k h res = map_sum id (\<lambda>st. st\<lparr>rand := sdrop k h\<rparr>) res"


section \<open>Paths\<close>

lemma adjacent_sym: "adjacent a b \<Longrightarrow> adjacent b a"
  by (cases a; cases b) (auto simp: adjacent_def DIJS_def)

lemma adjacent_sym_eq: "(\<lambda>x y. adjacent y x) = adjacent"
  by (intro ext) (auto dest: adjacent_sym)

lemma good_neighbors_adjacent: "n \<in> set (good_neighbors rows cols si x) \<Longrightarrow> adjacent x n"
  by (auto simp: good_neighbors_def adjacent_def)

lemma nbrs_rev:
  assumes "k < length p"
  shows "mset (nbrs (rev p) k) = mset (nbrs p (length p - 1 - k))"
proof -
  have a: "0 < k \<Longrightarrow> rev p ! (k - 1) = p ! (length p - k)"
    using assms by (simp add: rev_nth) 
  have b: "Suc k < length p \<Longrightarrow> rev p ! Suc k = p ! (length p - 1 - k - 1)"
    by (simp add: rev_nth) 
  have c: "0 < k \<Longrightarrow> Suc (length p - 1 - k) = length p - k" using assms by arith
  show ?thesis using assms a b c
    by (auto simp: nbrs_def)
qed

lemma is_path_rev: "is_path A p \<Longrightarrow> is_path A (rev p)"
  unfolding is_path_def
proof (intro conjI allI impI)
  assume a: "p \<noteq> [] \<and> distinct p \<and> successively adjacent p \<and>
     (\<forall>k<length p. \<exists>ns. A (p ! k) = Some ns \<and> mset ns = mset (nbrs p k))"
  show "rev p \<noteq> []" "distinct (rev p)" using a by auto
  have "successively (\<lambda>x y. adjacent y x) p"
    using a by (auto elim!: successively_mono dest: adjacent_sym)
  then show "successively adjacent (rev p)" by simp
  fix k assume k: "k < length (rev p)"
  then have k': "length p - 1 - k < length p" by simp
  with a obtain ns where "A (p ! (length p - 1 - k)) = Some ns" "mset ns = mset (nbrs p (length p - 1 - k))"
    by blast
  then show "\<exists>ns. A (rev p ! k) = Some ns \<and> mset ns = mset (nbrs (rev p) k)"
    using k nbrs_rev[of k p] by (simp add: rev_nth)
qed

lemma is_path_cong:
  assumes "is_path A p" "\<And>x. x \<in> set p \<Longrightarrow> B x = A x"
  shows "is_path B p"
  using assms unfolding is_path_def by (metis nth_mem)

lemma is_path_single: "A x = Some [] \<Longrightarrow> is_path A [x]"
  by (simp add: is_path_def nbrs_def)

lemma is_path_append:
  assumes p: "is_path A p" and x: "last p = x" "A x = Some xs" and n: "n \<notin> set p" "adjacent x n"
  shows "is_path (A(x \<mapsto> xs @ [n], n \<mapsto> [x])) (p @ [n])"
  unfolding is_path_def
proof (intro conjI allI impI)
  let ?B = "A(x \<mapsto> xs @ [n], n \<mapsto> [x])"
  from p have pne: "p \<noteq> []" and dp: "distinct p" and sp: "successively adjacent p"
    and ap: "\<And>k. k < length p \<Longrightarrow> \<exists>ns. A (p ! k) = Some ns \<and> mset ns = mset (nbrs p k)"
    by (auto simp: is_path_def)
  show "p @ [n] \<noteq> []" by simp
  show "distinct (p @ [n])" using dp n by simp
  show "successively adjacent (p @ [n])"
    using sp pne x n by (simp add: successively_append_iff)
  have xl: "x = p ! (length p - 1)" using x pne by (simp add: last_conv_nth)
  fix k assume k: "k < length (p @ [n])"
  consider "k = length p" | "k = length p - 1" | "Suc k < length p" using k pne by force
  then show "\<exists>ns. ?B ((p @ [n]) ! k) = Some ns \<and> mset ns = mset (nbrs (p @ [n]) k)"
  proof cases
    case 1
    then show ?thesis using pne xl by (simp add: nbrs_def nth_append)
  next
    case 2
    then have kl: "k < length p" using pne by simp
    from ap[OF kl] x xl 2 have "mset xs = mset (nbrs p k)" by auto
    moreover have "p ! k = x" using 2 xl by simp
    moreover have "x \<noteq> n" using n x pne by auto
    ultimately show ?thesis using 2 kl pne
      by (auto simp: nbrs_def nth_append)
  next
    case 3
    then have kl: "k < length p" by simp
    have "p ! k \<noteq> x" using 3 xl dp pne by (simp add: nth_eq_iff_index_eq)
    moreover have "p ! k \<noteq> n" using n kl by auto
    moreover have "nbrs (p @ [n]) k = nbrs p k" using 3 by (auto simp: nbrs_def nth_append)
    ultimately show ?thesis using ap[OF kl] kl by (simp add: nth_append)
  qed
qed

lemma is_path_end:
  assumes p: "is_path A p" and x: "x \<in> set p" "A x = Some xs" "length xs \<le> 1"
  shows "x = last p \<or> x = hd p"
proof -
  from x obtain k where k: "k < length p" "p ! k = x" by (auto simp: in_set_conv_nth)
  with p x have "mset xs = mset (nbrs p k)" by (auto simp: is_path_def)
  then have "length xs = length (nbrs p k)" by (metis size_mset)
  with x have "\<not> (0 < k \<and> Suc k < length p)" by (auto simp: nbrs_def)
  then have "k = 0 \<or> k = length p - 1" using k by arith
  moreover have "p \<noteq> []" using p by (simp add: is_path_def)
  ultimately show ?thesis using k by (auto simp: hd_conv_nth last_conv_nth)
qed

text \<open>Extending a path at a cell of degree at most one.\<close>
lemma is_path_extend:
  assumes p: "is_path A p" and x: "x \<in> set p" "A x = Some xs" "length xs \<le> 1"
    and n: "n \<notin> set p" "adjacent x n"
  shows "\<exists>q. mset q = add_mset n (mset p) \<and> is_path (A(x \<mapsto> xs @ [n], n \<mapsto> [x])) q"
proof -
  from is_path_end[OF p x] show ?thesis
  proof
    assume "x = last p"
    from is_path_append[OF p this[symmetric] x(2) n] show ?thesis
      by (intro exI[of _ "p @ [n]"]) simp
  next
    assume "x = hd p"
    moreover have "p \<noteq> []" using p by (simp add: is_path_def)
    ultimately have "last (rev p) = x" by (simp add: last_rev)
    from is_path_append[OF is_path_rev[OF p] this x(2)] n show ?thesis
      by (intro exI[of _ "rev p @ [n]"]) simp
  qed
qed

section \<open>The invariant is kept\<close>

lemma inv_state_rand [simp]: "inv_state rows cols (st\<lparr>rand := g\<rparr>) = inv_state rows cols st"
  by (simp add: inv_state_def)

lemma inv_grow_rand [simp]: "inv_grow rows cols base seeds (st\<lparr>rand := g\<rparr>) = inv_grow rows cols base seeds st"
  by (simp add: inv_grow_def)

lemma randpop_mset:
  assumes "randpop g seq = Inr (x, seq', g')"
  shows "x \<in> set seq \<and> mset seq' = mset seq - {#x#}"
proof -
  from assms have ne: "seq \<noteq> []" by (auto simp: randpop_def split: if_splits)
  define idx where "idx = fst (randbelow (length seq) g)"
  have idx: "idx < length seq" unfolding idx_def using ne by (intro randbelow_less) simp
  from assms ne have x: "x = seq ! idx" and s': "seq' = butlast (seq[idx := last seq])"
    by (auto simp: randpop_def idx_def split: prod.splits)
  let ?ys = "seq[idx := last seq]"
  have yne: "?ys \<noteq> []" using ne by simp
  have ly: "last ?ys = last seq" using ne idx by (simp add: last_list_update)
  have "mset ?ys = add_mset (last seq) (mset seq - {#seq ! idx#})"
    using idx by (simp add: mset_update)
  moreover have "mset ?ys = add_mset (last ?ys) (mset (butlast ?ys))"
  proof -
    have "mset (butlast ?ys @ [last ?ys]) = mset ?ys" using yne by simp
    then show ?thesis by simp
  qed
  ultimately have "mset (butlast ?ys) = mset seq - {#seq ! idx#}" using ly by simp
  with x s' idx show ?thesis by simp
qed

lemma mset_concat_update:
  "k < length xs \<Longrightarrow> mset (concat (xs[k := xs ! k @ [n]])) = add_mset n (mset (concat xs))"
proof (induction xs arbitrary: k)
  case Nil
  then show ?case by simp
next
  case (Cons a xs)
  then show ?case by (cases k) auto
qed

lemma distinct_concat_nth_disjoint:
  "distinct (concat xs) \<Longrightarrow> i < j \<Longrightarrow> j < length xs \<Longrightarrow> set (xs ! i) \<inter> set (xs ! j) = {}"
proof (induction xs arbitrary: i j)
  case Nil
  then show ?case by simp
next
  case (Cons a xs)
  show ?case
  proof (cases i)
    case 0
    with Cons.prems obtain j' where j: "j = Suc j'" "j' < length xs" by (cases j) auto
    then have "xs ! j' \<in> set xs" by simp
    then have "set (xs ! j') \<subseteq> \<Union> (set ` set xs)" by blast
    moreover have "set a \<inter> \<Union> (set ` set xs) = {}" using Cons.prems(1) by simp
    ultimately show ?thesis using 0 j by auto
  next
    case (Suc i')
    with Cons.prems obtain j' where j: "j = Suc j'" "j' < length xs" "i' < j'" by (cases j) auto
    with Cons.IH[of i' j'] Cons.prems Suc show ?thesis by simp
  qed
qed

lemma distinct_concat_nth_neq:
  assumes "distinct (concat xs)" "i < length xs" "j < length xs" "i \<noteq> j" "x \<in> set (xs ! i)"
  shows "x \<notin> set (xs ! j)"
proof (cases "i < j")
  case True
  with distinct_concat_nth_disjoint[OF assms(1) True assms(3)] assms(5) show ?thesis by auto
next
  case False
  with assms have "j < i" by simp
  from distinct_concat_nth_disjoint[OF assms(1) this assms(2)] assms(5) show ?thesis by auto
qed

lemma attach_ok:
  assumes "adj st x = Some xs" "adj st n = Some []" "x \<noteq> n" "strandi st x = Some k"
    "k < length (strands st)"
  shows "attach x n st = Inr (st\<lparr>adj := (adj st)(x \<mapsto> xs @ [n], n \<mapsto> [x]),
            strandi := (strandi st)(n \<mapsto> k),
            strands := (strands st)[k := strands st ! k @ [n]]\<rparr>)"
  using assms by (simp add: attach_def)

lemma inv_attach:
  assumes inv: "inv_grow rows cols base seeds st"
    and x: "x \<in> set seeds" and s1: "mset seeds1 = mset seeds - {#x#}"
    and n: "n \<in> set (good_neighbors rows cols (strandi st) x)"
  shows "\<exists>st'. attach x n st = Inr st' \<and> inv_grow rows cols base (seeds1 @ [n]) st' \<and>
           (\<exists>k. strandi st' = (strandi st)(n \<mapsto> k)) \<and> rand st' = rand st \<and>
           length (strands st') = length (strands st)"
proof -
  from inv have ist: "inv_state rows cols st" by (simp add: inv_grow_def)
  from ist have domadj: "dom (adj st) = set (cells rows cols)"
    and domsi: "dom (strandi st) \<subseteq> set (cells rows cols)"
    and unas: "\<And>y. y \<in> set (cells rows cols) \<Longrightarrow> strandi st y = None \<Longrightarrow> adj st y = Some []"
    and sub: "set (concat (strands st)) \<subseteq> dom (strandi st)"
    and dist: "distinct (concat (strands st))"
    and paths: "\<And>s. s \<in> set (strands st) \<Longrightarrow> \<exists>p. mset p = mset s \<and> is_path (adj st) p"
    by (auto simp: inv_state_def)
  from inv have idx: "\<And>k y. base \<le> k \<Longrightarrow> k < length (strands st) \<Longrightarrow> y \<in> set (strands st ! k)
       \<Longrightarrow> strandi st y = Some k"
    and fr1: "\<And>y. y \<in> set seeds \<Longrightarrow> \<exists>k. base \<le> k \<and> k < length (strands st) \<and> y \<in> set (strands st ! k)"
    and fr2: "\<And>y. y \<in> set seeds \<Longrightarrow> \<exists>ns. adj st y = Some ns \<and> length ns + count (mset seeds) y \<le> 2"
    by (auto simp: inv_grow_def)
  from fr1[OF x] obtain k where k: "base \<le> k" "k < length (strands st)" "x \<in> set (strands st ! k)"
    by blast
  from idx[OF k] have six: "strandi st x = Some k" .
  from fr2[OF x] obtain xs where xs: "adj st x = Some xs" "length xs + count (mset seeds) x \<le> 2"
    by blast
  from x have "1 \<le> count (mset seeds) x" by (simp add: Suc_le_eq)
  with xs have lxs: "length xs \<le> 1" by linarith
  from good_neighbors_D[OF n] have ng: "n \<in> set (cells rows cols)" and nu: "strandi st n = None"
    by auto
  from good_neighbors_adjacent[OF n] have adjxn: "adjacent x n" .
  from unas[OF ng nu] have an: "adj st n = Some []" .
  from six nu have xn: "x \<noteq> n" by auto
  have nnot: "n \<notin> set (concat (strands st))" using sub nu by auto
  have nseeds: "n \<notin> set seeds" using fr1 idx nu by fastforce
  let ?A = "(adj st)(x \<mapsto> xs @ [n], n \<mapsto> [x])"
  let ?S = "(strands st)[k := strands st ! k @ [n]]"
  let ?st = "st\<lparr>adj := ?A, strandi := (strandi st)(n \<mapsto> k), strands := ?S\<rparr>"
  have att: "attach x n st = Inr ?st" using attach_ok[OF xs(1) an xn six k(2)] .
  have mc: "mset (concat ?S) = add_mset n (mset (concat (strands st)))"
    using mset_concat_update[OF k(2)] .
  then have sc: "set (concat ?S) = insert n (set (concat (strands st)))"
    by (metis set_mset_mset set_mset_add_mset_insert)
  have dc: "distinct (concat ?S)"
  proof -
    have "mset (concat ?S) = mset (n # concat (strands st))" using mc by simp
    from mset_eq_imp_distinct_iff[OF this] dist nnot show ?thesis by simp
  qed
  have pths: "\<exists>p. mset p = mset s \<and> is_path ?A p" if s: "s \<in> set ?S" for s
  proof -
    from s obtain i where i: "i < length (strands st)" "s = ?S ! i"
      by (auto simp: in_set_conv_nth)
    show ?thesis
    proof (cases "i = k")
      case True
      with i have s_eq: "s = strands st ! k @ [n]" by simp
      from paths[of "strands st ! k"] k(2) obtain p where p: "mset p = mset (strands st ! k)"
        "is_path (adj st) p" by auto
      from p(1) k(3) have xp: "x \<in> set p" by (metis set_mset_mset)
      from p(1) nnot k(2) have np: "n \<notin> set p"
        by (metis set_mset_mset nth_mem set_concat UN_I)
      from is_path_extend[OF p(2) xp xs(1) lxs np adjxn] p(1) s_eq show ?thesis by auto
    next
      case False
      with i have s_eq: "s = strands st ! i" by simp
      have sin: "s \<in> set (strands st)" unfolding s_eq using i(1) by (rule nth_mem)
      from paths[OF sin] obtain p where p: "mset p = mset s" "is_path (adj st) p" by auto
      have "x \<notin> set s"
        using distinct_concat_nth_neq[OF dist k(2) i(1) _ k(3)] False s_eq by auto
      moreover have "n \<notin> set s" using nnot sin by auto
      ultimately have "x \<notin> set p" "n \<notin> set p" using p(1) by (metis set_mset_mset)+
      then have "is_path ?A p" by (intro is_path_cong[OF p(2)]) auto
      with p(1) show ?thesis by auto
    qed
  qed
  have ist': "inv_state rows cols ?st"
    unfolding inv_state_def
  proof (intro conjI)
    show "dom (adj ?st) = set (cells rows cols)" using domadj xs(1) ng by auto
    show "dom (strandi ?st) \<subseteq> set (cells rows cols)" using domsi ng by auto
    show "\<forall>y\<in>set (cells rows cols). strandi ?st y = None \<longrightarrow> adj ?st y = Some []"
      using unas six by auto
    show "set (concat (strands ?st)) \<subseteq> dom (strandi ?st)" using sc sub by auto
    show "distinct (concat (strands ?st))" using dc by simp
    show "\<forall>s\<in>set (strands ?st). \<exists>p. mset p = mset s \<and> is_path (adj ?st) p"
      using pths by simp
  qed
  have idx': "strandi ?st y = Some j"
    if j: "base \<le> j" "j < length (strands ?st)" "y \<in> set (strands ?st ! j)" for j y
  proof (cases "j = k")
    case True
    with j k(2) have "y = n \<or> y \<in> set (strands st ! k)" by auto
    then show ?thesis
    proof
      assume "y = n"
      then show ?thesis using True by simp
    next
      assume yk: "y \<in> set (strands st ! k)"
      from idx[OF k(1,2) yk] have "strandi st y = Some k" .
      moreover have "y \<noteq> n" using yk nu six \<open>strandi st y = Some k\<close> by auto
      ultimately show ?thesis using True by simp
    qed
  next
    case False
    with j have yj: "y \<in> set (strands st ! j)" "j < length (strands st)" by auto
    then have "y \<in> set (concat (strands st))" by auto
    with nnot have "y \<noteq> n" by auto
    with idx[OF j(1) yj(2) yj(1)] show ?thesis by simp
  qed
  have c1: "count (mset seeds1) y = (if y = x then count (mset seeds) x - 1 else count (mset seeds) y)" for y
    using s1 by simp
  have cn: "count (mset seeds1) n = 0" using c1[of n] nseeds xn by (simp add: count_eq_zero_iff)
  have fr': "(\<exists>j. base \<le> j \<and> j < length (strands ?st) \<and> y \<in> set (strands ?st ! j)) \<and>
        (\<exists>ns. adj ?st y = Some ns \<and> length ns + count (mset (seeds1 @ [n])) y \<le> 2)"
    if y: "y \<in> set (seeds1 @ [n])" for y
  proof (cases "y = n")
    case True
    have "n \<in> set (strands ?st ! k)" using k(2) by simp
    then have "\<exists>j. base \<le> j \<and> j < length (strands ?st) \<and> y \<in> set (strands ?st ! j)"
      using k True by (intro exI[of _ k]) simp
    moreover have "adj ?st y = Some [x]" using True by simp
    moreover have "count (mset (seeds1 @ [n])) y = 1" using True cn by simp
    ultimately show ?thesis by simp
  next
    case False
    with y have "y \<in># mset seeds1" by simp
    with s1 have ys: "y \<in> set seeds" by (metis in_diffD set_mset_mset)
    from fr1[OF ys] obtain j where j: "base \<le> j" "j < length (strands st)" "y \<in> set (strands st ! j)"
      by blast
    then have "y \<in> set (strands ?st ! j)" by (cases "j = k") auto
    with j have A: "\<exists>j. base \<le> j \<and> j < length (strands ?st) \<and> y \<in> set (strands ?st ! j)"
      by auto
    from fr2[OF ys] obtain ns where ns: "adj st y = Some ns" "length ns + count (mset seeds) y \<le> 2"
      by blast
    have cy: "count (mset (seeds1 @ [n])) y = count (mset seeds1) y" using False by simp
    have B: "\<exists>ns. adj ?st y = Some ns \<and> length ns + count (mset (seeds1 @ [n])) y \<le> 2"
    proof (cases "y = x")
      case True
      have "adj ?st y = Some (xs @ [n])" using True xn by simp
      moreover have "count (mset seeds1) y = count (mset seeds) x - 1" using True c1[of y] by simp
      moreover have "1 \<le> count (mset seeds) x" using x by (simp add: Suc_le_eq)
      ultimately show ?thesis using xs(2) cy by simp
    next
      case ny: False
      have "adj ?st y = Some ns" using ny False ns(1) by simp
      moreover have "count (mset seeds1) y = count (mset seeds) y" using ny c1[of y] by simp
      ultimately show ?thesis using ns(2) cy by simp
    qed
    from A B show ?thesis by simp
  qed
  have "inv_grow rows cols base (seeds1 @ [n]) ?st"
    unfolding inv_grow_def using ist' idx' fr' by blast
  with att show ?thesis by auto
qed

lemma inv_grow_sub:
  assumes "inv_grow rows cols base seeds st" "mset seeds1 \<subseteq># mset seeds"
  shows "inv_grow rows cols base seeds1 st"
proof -
  have s: "set seeds1 \<subseteq> set seeds" using assms(2) by (metis set_mset_mono set_mset_mset)
  have c: "count (mset seeds1) y \<le> count (mset seeds) y" for y
    using assms(2) by (simp add: mset_subset_eq_count)
  show ?thesis
    unfolding inv_grow_def
  proof (intro conjI ballI)
    show "inv_state rows cols st" using assms(1) by (simp add: inv_grow_def)
    show "\<forall>k. base \<le> k \<longrightarrow> k < length (strands st) \<longrightarrow> (\<forall>x\<in>set (strands st ! k). strandi st x = Some k)"
      using assms(1) by (simp add: inv_grow_def)
    fix y assume "y \<in> set seeds1"
    then have y: "y \<in> set seeds" using s by auto
    with assms(1) show "\<exists>k. base \<le> k \<and> k < length (strands st) \<and> y \<in> set (strands st ! k)"
      by (simp add: inv_grow_def)
    from y assms(1) obtain ns where "adj st y = Some ns" "length ns + count (mset seeds) y \<le> 2"
      unfolding inv_grow_def by blast
    with c[of y] show "\<exists>ns. adj st y = Some ns \<and> length ns + count (mset seeds1) y \<le> 2"
      by auto
  qed
qed

lemma grow_step_inv:
  assumes inv: "inv_grow rows cols base seeds st" and ne: "seeds \<noteq> []"
  shows "\<exists>seeds' st'. grow_step rows cols seeds st = Inr (seeds', st') \<and>
           inv_grow rows cols base seeds' st' \<and> strandi st \<subseteq>\<^sub>m strandi st' \<and>
           length (strands st') = length (strands st)"
proof -
  obtain idx g1 where rb0: "randbelow (length seeds) (rand st) = (idx, g1)"
    by (cases "randbelow (length seeds) (rand st)")
  define x where "x = seeds ! idx"
  define seeds1 where "seeds1 = butlast (seeds[idx := last seeds])"
  have rp: "randpop (rand st) seeds = Inr (x, seeds1, g1)"
    using ne rb0 by (simp add: randpop_def x_def seeds1_def)
  from randpop_mset[OF rp] have x: "x \<in> set seeds" and s1: "mset seeds1 = mset seeds - {#x#}"
    by auto
  from inv x have six: "strandi st x \<noteq> None" unfolding inv_grow_def by fastforce
  let ?neighs = "good_neighbors rows cols (strandi st) x"
  show ?thesis
  proof (cases "?neighs = []")
    case True
    with rp six have "grow_step rows cols seeds st = Inr (seeds1, st\<lparr>rand := g1\<rparr>)"
      by (simp add: grow_step_def)
    moreover have "inv_grow rows cols base seeds1 st"
      using inv_grow_sub[OF inv] s1 by simp
    ultimately show ?thesis by simp
  next
    case False
    obtain j g2 where rb: "randbelow (length ?neighs) g1 = (j, g2)"
      by (cases "randbelow (length ?neighs) g1")
    with False have "j < length ?neighs" using randbelow_less[of "length ?neighs" g1] by simp
    then have n: "?neighs ! j \<in> set (good_neighbors rows cols (strandi (st\<lparr>rand := g2\<rparr>)) x)" by simp
    have inv2: "inv_grow rows cols base seeds (st\<lparr>rand := g2\<rparr>)" using inv by simp
    from inv_attach[OF inv2 x s1 n] obtain st' where st':
      "attach x (?neighs ! j) (st\<lparr>rand := g2\<rparr>) = Inr st'"
      "inv_grow rows cols base (seeds1 @ [?neighs ! j]) st'"
      "\<exists>k. strandi st' = (strandi st)(?neighs ! j \<mapsto> k)"
      "length (strands st') = length (strands st)" by auto
    from good_neighbors_D n have "strandi st (?neighs ! j) = None" by simp
    with st'(3) have "strandi st \<subseteq>\<^sub>m strandi st'" by (auto simp: map_le_def)
    moreover have "grow_step rows cols seeds st = Inr (seeds1 @ [?neighs ! j], st')"
      using rp six False rb st'(1) by (simp add: grow_step_def)
    ultimately show ?thesis using st'(2,4) by simp
  qed
qed

lemma grow_inv:
  "inv_grow rows cols base seeds st \<Longrightarrow>
   \<exists>st'. grow rows cols seeds st = Inr st' \<and> inv_grow rows cols base [] st' \<and>
         strandi st \<subseteq>\<^sub>m strandi st' \<and> length (strands st') = length (strands st)"
proof (induction rows cols seeds st rule: grow.induct)
  case (1 rows cols seeds st)
  show ?case
  proof (cases "seeds = []")
    case True
    with "1.prems" show ?thesis by simp
  next
    case False
    from grow_step_inv[OF "1.prems" False] obtain seeds' st' where
      gs: "grow_step rows cols seeds st = Inr (seeds', st')"
      and inv': "inv_grow rows cols base seeds' st'"
      and le: "strandi st \<subseteq>\<^sub>m strandi st'" and len: "length (strands st') = length (strands st)"
      by blast
    from "1.IH"[OF False gs refl inv'] obtain st'' where
      "grow rows cols seeds' st' = Inr st''" "inv_grow rows cols base [] st''"
      "strandi st' \<subseteq>\<^sub>m strandi st''" "length (strands st'') = length (strands st')" by blast
    with gs le len False show ?thesis
      by (auto intro: map_le_trans)
  qed
qed

lemma seed_all_adj [simp]: "adj (seed_all xs st) = adj st"
  by (induction xs arbitrary: st) auto

lemma seed_all_rand [simp]: "rand (seed_all xs st) = rand st"
  by (induction xs arbitrary: st) auto

lemma seed_all_strands [simp]: "strands (seed_all xs st) = strands st @ map (\<lambda>x. [x]) xs"
  by (induction xs arbitrary: st) auto

lemma seed_all_strandi_notin: "y \<notin> set xs \<Longrightarrow> strandi (seed_all xs st) y = strandi st y"
  by (induction xs arbitrary: st) auto

lemma seed_all_strandi_nth:
  "distinct xs \<Longrightarrow> i < length xs \<Longrightarrow> strandi (seed_all xs st) (xs ! i) = Some (length (strands st) + i)"
proof (induction xs arbitrary: st i)
  case Nil
  then show ?case by simp
next
  case (Cons a xs)
  show ?case
  proof (cases i)
    case 0
    with Cons.prems show ?thesis by (simp add: seed_all_strandi_notin)
  next
    case (Suc i')
    with Cons.prems Cons.IH[of i'] show ?thesis by simp
  qed
qed

lemma seed_all_dom: "dom (strandi (seed_all xs st)) = dom (strandi st) \<union> set xs"
  by (induction xs arbitrary: st) auto

lemma concat_singletons [simp]: "concat (map (\<lambda>x. [x]) xs) = xs"
  by (induction xs) auto

lemma inv_seed:
  assumes inv: "inv_state rows cols st" and d: "distinct xs"
    and g: "set xs \<subseteq> set (cells rows cols)" and u: "\<And>x. x \<in> set xs \<Longrightarrow> strandi st x = None"
  shows "inv_grow rows cols (length (strands st)) (xs @ xs) (seed_all xs st)"
proof -
  let ?st = "seed_all xs st"
  from inv have domadj: "dom (adj st) = set (cells rows cols)"
    and domsi: "dom (strandi st) \<subseteq> set (cells rows cols)"
    and unas: "\<And>y. y \<in> set (cells rows cols) \<Longrightarrow> strandi st y = None \<Longrightarrow> adj st y = Some []"
    and sub: "set (concat (strands st)) \<subseteq> dom (strandi st)"
    and dist: "distinct (concat (strands st))"
    and paths: "\<And>s. s \<in> set (strands st) \<Longrightarrow> \<exists>p. mset p = mset s \<and> is_path (adj st) p"
    by (auto simp: inv_state_def)
  have ax: "adj st x = Some []" if "x \<in> set xs" for x using that g u unas by blast
  have ist: "inv_state rows cols ?st"
    unfolding inv_state_def
  proof (intro conjI ballI impI)
    show "dom (adj ?st) = set (cells rows cols)" using domadj by simp
    show "dom (strandi ?st) \<subseteq> set (cells rows cols)" using domsi g by (simp add: seed_all_dom)
    show "set (concat (strands ?st)) \<subseteq> dom (strandi ?st)" using sub by (auto simp: seed_all_dom)
    have "set (concat (strands st)) \<inter> set xs = {}" using sub u by auto
    then show "distinct (concat (strands ?st))" using dist d by simp
  next
    fix y assume "y \<in> set (cells rows cols)" "strandi ?st y = None"
    moreover from this have "y \<notin> set xs" using seed_all_dom[of xs st] by blast
    ultimately show "adj ?st y = Some []" using unas by (simp add: seed_all_strandi_notin)
  next
    fix s assume "s \<in> set (strands ?st)"
    then consider "s \<in> set (strands st)" | x where "x \<in> set xs" "s = [x]" by auto
    then show "\<exists>p. mset p = mset s \<and> is_path (adj ?st) p"
    proof cases
      case 1
      then show ?thesis using paths by simp
    next
      case 2
      then show ?thesis using is_path_single[OF ax] by (intro exI[of _ "[x]"]) simp
    qed
  qed
  have nthk: "strands ?st ! k = [xs ! (k - length (strands st))]"
    if "length (strands st) \<le> k" "k < length (strands ?st)" for k
    using that by (simp add: nth_append)
  show ?thesis
    unfolding inv_grow_def
  proof (intro conjI allI impI ballI)
    show "inv_state rows cols ?st" by (rule ist)
  next
    fix k y assume k: "length (strands st) \<le> k" "k < length (strands ?st)"
      and y: "y \<in> set (strands ?st ! k)"
    from nthk[OF k] y have "y = xs ! (k - length (strands st))" by simp
    moreover have "k - length (strands st) < length xs" using k by simp
    ultimately show "strandi ?st y = Some k" using seed_all_strandi_nth[OF d, of "k - length (strands st)" st] k
      by simp
  next
    fix y assume "y \<in> set (xs @ xs)"
    then have y: "y \<in> set xs" by simp
    then obtain i where i: "i < length xs" "xs ! i = y" by (auto simp: in_set_conv_nth)
    let ?k = "length (strands st) + i"
    have "length (strands st) \<le> ?k" "?k < length (strands ?st)" using i by auto
    from nthk[OF this] i have "y \<in> set (strands ?st ! ?k)" by simp
    then show "\<exists>k\<ge>length (strands st). k < length (strands ?st) \<and> y \<in> set (strands ?st ! k)"
      using i by (intro exI[of _ ?k]) simp
    have "count (mset xs) y = 1" using d y by (metis distinct_count_atmost_1)
    then show "\<exists>ns. adj ?st y = Some ns \<and> length ns + count (mset (xs @ xs)) y \<le> 2"
      using ax[OF y] by simp
  qed
qed

lemma shuffle_from_mset:
  "k < length xs \<Longrightarrow> mset (fst (shuffle_from k xs g)) = mset xs"
proof (induction k arbitrary: xs g)
  case 0
  then show ?case by simp
next
  case (Suc i)
  obtain j g' where rb: "randbelow (Suc (Suc i)) g = (j, g')" by (cases "randbelow (Suc (Suc i)) g")
  have "j < Suc (Suc i)" using randbelow_less[of "Suc (Suc i)" g] rb by simp
  with Suc.prems have j: "j < length xs" by simp
  let ?ys = "xs[Suc i := xs ! j, j := xs ! Suc i]"
  have "mset ?ys = mset xs" using mset_swap[OF j Suc.prems] .
  moreover have "i < length ?ys" using Suc.prems by simp
  ultimately show ?case using Suc.IH[of ?ys g'] rb by simp
qed

lemma shuffle_mset: "mset (fst (shuffle xs g)) = mset xs"
proof (cases "xs = []")
  case True
  then show ?thesis by (simp add: shuffle_def)
next
  case False
  then have "length xs - 1 < length xs" by simp
  then show ?thesis unfolding shuffle_def by (rule shuffle_from_mset)
qed

lemma shuffled_mset: "mset (fst (shuffled g xs)) = mset xs"
  by (simp add: shuffled_def shuffle_mset)

lemma distinct_cells: "distinct (cells rows cols)"
  by (simp add: cells_def distinct_product)

lemma slice_to_take: "\<exists>m. slice_to n xs = take m xs"
  by (auto simp: slice_to_def)

lemma distinct_concat_filter: "distinct (concat xs) \<Longrightarrow> distinct (concat (filter P xs))"
  by (induction xs) auto

lemma inv_state_prune:
  assumes "inv_state rows cols st"
  shows "inv_state rows cols (st\<lparr>strands := filter P (strands st)\<rparr>)"
  using assms unfolding inv_state_def
  by (auto simp: distinct_concat_filter)

lemma build_round_inv:
  assumes inv: "inv_state (r s) (c s) st"
  shows "\<exists>st'. build_round s st = Inr st' \<and> inv_state (r s) (c s) st' \<and>
           strandi st \<subseteq>\<^sub>m strandi st' \<and> (\<forall>strand\<in>set (strands st'). 1 < length strand) \<and>
           (1 \<le> endcl s \<longrightarrow> (\<exists>x\<in>set (cells (r s) (c s)). strandi st x = None) \<longrightarrow>
              dom (strandi st) \<subset> dom (strandi st'))"
proof -
  let ?U = "filter (\<lambda>x. strandi st x = None) (cells (r s) (c s))"
  obtain all_seeds g1 where sh: "shuffled (rand st) ?U = (all_seeds, g1)"
    by (cases "shuffled (rand st) ?U")
  have ms: "mset all_seeds = mset ?U" using shuffled_mset[of "rand st" ?U] sh by simp
  then have sa: "set all_seeds = set ?U" by (metis set_mset_mset)
  have da: "distinct all_seeds" using mset_eq_imp_distinct_iff[OF ms] distinct_cells by simp
  define seeds where "seeds = slice_to (endcl s) all_seeds"
  obtain m where m: "seeds = take m all_seeds" unfolding seeds_def using slice_to_take by blast
  have ds: "distinct seeds" using da m by simp
  have ss: "set seeds \<subseteq> set ?U" using sa m by (metis set_take_subset)
  define st0 where "st0 = st\<lparr>rand := g1\<rparr>"
  define st1 where "st1 = seed_all seeds st0"
  have inv0: "inv_state (r s) (c s) st0" using inv by (simp add: st0_def)
  have u: "\<And>x. x \<in> set seeds \<Longrightarrow> strandi st0 x = None" using ss by (auto simp: st0_def)
  have g: "set seeds \<subseteq> set (cells (r s) (c s))" using ss by auto
  from inv_seed[OF inv0 ds g u]
  have ig: "inv_grow (r s) (c s) (length (strands st0)) (seeds @ seeds) st1"
    by (simp add: st1_def)
  from grow_inv[OF ig] obtain st2 where st2: "grow (r s) (c s) (seeds @ seeds) st1 = Inr st2"
    "inv_grow (r s) (c s) (length (strands st0)) [] st2" "strandi st1 \<subseteq>\<^sub>m strandi st2" by blast
  let ?st' = "st2\<lparr>strands := filter (\<lambda>strand. length strand > 1) (strands st2)\<rparr>"
  have br: "build_round s st = Inr ?st'"
    using sh st2(1) by (simp add: build_round_def seeds_def st1_def st0_def Let_def)
  have inv': "inv_state (r s) (c s) ?st'"
    using st2(2) by (intro inv_state_prune) (simp add: inv_grow_def)
  have le01: "strandi st \<subseteq>\<^sub>m strandi st1"
    unfolding map_le_def
  proof
    fix y assume "y \<in> dom (strandi st)"
    then have yn: "strandi st0 y \<noteq> None" by (auto simp: st0_def)
    have "y \<notin> set seeds"
    proof
      assume "y \<in> set seeds"
      from u[OF this] yn show False by simp
    qed
    then show "strandi st y = strandi st1 y" by (simp add: st1_def seed_all_strandi_notin st0_def)
  qed
  with st2(3) have le: "strandi st \<subseteq>\<^sub>m strandi ?st'" by (auto intro: map_le_trans)
  have progress: "dom (strandi st) \<subset> dom (strandi ?st')"
    if e: "1 \<le> endcl s" and ex: "\<exists>x\<in>set (cells (r s) (c s)). strandi st x = None"
  proof -
    from ex have "?U \<noteq> []" by (auto simp: filter_empty_conv)
    with ms have ane: "all_seeds \<noteq> []" by (metis mset_zero_iff)
    from e have "seeds = take (nat (endcl s)) all_seeds" "0 < nat (endcl s)"
      by (auto simp: seeds_def slice_to_def)
    with ane have sne: "seeds \<noteq> []" by (cases all_seeds; cases "nat (endcl s)") auto
    then obtain x where x: "x \<in> set seeds" by (cases seeds) auto
    then have "x \<in> dom (strandi st1)" by (simp add: st1_def seed_all_dom)
    with st2(3) have "x \<in> dom (strandi ?st')" using map_le_implies_dom_le by fastforce
    moreover have "strandi st0 x = None" using u[OF x] .
    then have "x \<notin> dom (strandi st)" by (auto simp: st0_def)
    moreover have "dom (strandi st) \<subseteq> dom (strandi ?st')" using le by (rule map_le_implies_dom_le)
    ultimately show ?thesis by blast
  qed
  show ?thesis using br inv' le progress by (intro exI[of _ ?st']) auto
qed

lemma inv_state_init: "inv_state rows cols (init_state rows cols g)"
proof -
  have "dom (map_of (map (\<lambda>x. (x, [] :: cell list)) (cells rows cols))) = set (cells rows cols)"
    by (simp add: dom_map_of_conv_image_fst image_image)
  moreover have "map_of (map (\<lambda>x. (x, [])) (cells rows cols)) y = Some ([] :: cell list)"
    if "y \<in> set (cells rows cols)" for y :: cell
    using that by (induction "cells rows cols") (auto simp: map_of_map_restrict)
  ultimately have "dom (adj (init_state rows cols g)) = set (cells rows cols)"
    "\<forall>x\<in>set (cells rows cols). adj (init_state rows cols g) x = Some []"
    unfolding init_state_def by (simp, simp del: split_paired_All split_paired_Ex)
  moreover have "strands (init_state rows cols g) = []" "strandi (init_state rows cols g) = Map.empty"
    by (simp_all add: init_state_def)
  ultimately show ?thesis
    unfolding inv_state_def by simp
qed

lemma loop_state_inv:
  "loop_state s g st \<Longrightarrow> inv_state (r s) (c s) st \<and> (\<forall>strand\<in>set (strands st). 1 < length strand)"
proof (induction rule: loop_state.induct)
  case start
  show ?case using inv_state_init by (simp add: init_state_def[of "r s" "c s" g, THEN arg_cong[of _ _ strands]])
next
  case (round st st')
  from build_round_inv[of s st] round show ?case by auto
qed

lemma build_strands_partial_aux:
  assumes "build_strands s st = Some res"
  shows "loop_state s g st \<longrightarrow>
     (\<exists>st'. res = Inr st' \<and> loop_state s g st' \<and> \<not> int (card (dom (strandi st'))) < r s * c s \<and>
           strandi st \<subseteq>\<^sub>m strandi st')"
proof (rule build_strands.raw_induct[where P = "\<lambda>s st res. loop_state s g st \<longrightarrow>
     (\<exists>st'. res = Inr st' \<and> loop_state s g st' \<and> \<not> int (card (dom (strandi st'))) < r s * c s \<and>
           strandi st \<subseteq>\<^sub>m strandi st')", OF _ assms])
  fix bs s st res
  assume IH: "\<And>s st res. bs s st = Some res \<Longrightarrow> loop_state s g st \<longrightarrow>
     (\<exists>st'. res = Inr st' \<and> loop_state s g st' \<and> \<not> int (card (dom (strandi st'))) < r s * c s \<and>
           strandi st \<subseteq>\<^sub>m strandi st')"
    and eq: "(if int (card (dom (strandi st))) < r s * c s
        then case build_round s st of Inl e \<Rightarrow> Some (Inl e) | Inr st' \<Rightarrow> bs s st'
        else Some (Inr st)) = Some res"
  show "loop_state s g st \<longrightarrow>
     (\<exists>st'. res = Inr st' \<and> loop_state s g st' \<and> \<not> int (card (dom (strandi st'))) < r s * c s \<and>
           strandi st \<subseteq>\<^sub>m strandi st')"
  proof
    assume ls: "loop_state s g st"
    show "\<exists>st'. res = Inr st' \<and> loop_state s g st' \<and> \<not> int (card (dom (strandi st'))) < r s * c s \<and>
           strandi st \<subseteq>\<^sub>m strandi st'"
    proof (cases "int (card (dom (strandi st))) < r s * c s")
      case False
      with eq have "res = Inr st" by simp
      with False ls show ?thesis by auto
    next
      case True
      from loop_state_inv[OF ls] have "inv_state (r s) (c s) st" by simp
      from build_round_inv[OF this] obtain st1 where st1: "build_round s st = Inr st1"
        "strandi st \<subseteq>\<^sub>m strandi st1" by blast
      with True eq have "bs s st1 = Some res" by simp
      moreover have "loop_state s g st1" using ls True st1(1) by (rule loop_state.round)
      ultimately obtain st' where "res = Inr st'" "loop_state s g st'"
        "\<not> int (card (dom (strandi st'))) < r s * c s" "strandi st1 \<subseteq>\<^sub>m strandi st'"
        using IH by blast
      with st1(2) show ?thesis by (auto intro: map_le_trans)
    qed
  qed
qed

lemma build_strands_partial:
  "build_strands s st = Some res \<Longrightarrow> loop_state s g st \<Longrightarrow>
     \<exists>st'. res = Inr st' \<and> loop_state s g st' \<and> \<not> int (card (dom (strandi st'))) < r s * c s \<and>
           strandi st \<subseteq>\<^sub>m strandi st'"
  using build_strands_partial_aux by blast

lemma card_cells: "card (set (cells rows cols)) = nat rows * nat cols"
proof -
  have "card (set (cells rows cols)) = length (cells rows cols)"
    using distinct_cells by (rule distinct_card)
  also have "\<dots> = nat rows * nat cols" by (simp add: cells_def)
  finally show ?thesis .
qed

lemma unassigned_exists:
  assumes "inv_state rows cols st" "int (card (dom (strandi st))) < rows * cols" "0 \<le> rows"
  shows "\<exists>x\<in>set (cells rows cols). strandi st x = None"
proof (rule ccontr)
  assume "\<not> ?thesis"
  then have "set (cells rows cols) \<subseteq> dom (strandi st)" by auto
  then have "card (set (cells rows cols)) \<le> card (dom (strandi st))"
    using assms(1) by (intro card_mono finite_subset[of "dom (strandi st)" "set (cells rows cols)"])
      (auto simp: inv_state_def)
  then have "int (nat rows * nat cols) \<le> int (card (dom (strandi st)))"
    unfolding card_cells by (simp only: of_nat_le_iff)
  moreover have "rows * cols \<le> int (nat rows * nat cols)"
  proof (cases "0 \<le> cols")
    case True
    then show ?thesis using assms(3) by simp
  next
    case False
    then have "rows * cols \<le> 0" using assms(3) by (simp add: mult_nonneg_nonpos)
    then show ?thesis by linarith
  qed
  ultimately show False using assms(2) by linarith
qed

lemma build_strands_total:
  assumes e: "1 \<le> endcl s" and rr: "0 \<le> r s"
  shows "loop_state s g st \<Longrightarrow> \<exists>st'. build_strands s st = Some (Inr st')"
proof (induction "card (set (cells (r s) (c s)) - dom (strandi st))" arbitrary: st rule: less_induct)
  case less
  show ?case
  proof (cases "int (card (dom (strandi st))) < r s * c s")
    case False
    then show ?thesis by (subst build_strands.simps) simp
  next
    case True
    from loop_state_inv[OF less.prems] have inv: "inv_state (r s) (c s) st" by simp
    from unassigned_exists[OF inv True rr] have ex: "\<exists>x\<in>set (cells (r s) (c s)). strandi st x = None" .
    from build_round_inv[OF inv] e ex obtain st1 where st1: "build_round s st = Inr st1"
      "inv_state (r s) (c s) st1" "dom (strandi st) \<subset> dom (strandi st1)" by blast
    have ls: "loop_state s g st1" using less.prems True st1(1) by (rule loop_state.round)
    have "dom (strandi st1) \<subseteq> set (cells (r s) (c s))" using st1(2) by (simp add: inv_state_def)
    with st1(3) have "set (cells (r s) (c s)) - dom (strandi st1) \<subset> set (cells (r s) (c s)) - dom (strandi st)"
      by blast
    then have "card (set (cells (r s) (c s)) - dom (strandi st1)) < card (set (cells (r s) (c s)) - dom (strandi st))"
      by (intro psubset_card_mono) auto
    from less.hyps[OF this ls] obtain st' where "build_strands s st1 = Some (Inr st')" by blast
    with True st1(1) show ?thesis by (subst build_strands.simps) simp
  qed
qed

lemma full_coverage:
  assumes "inv_state rows cols st" "\<not> int (card (dom (strandi st))) < rows * cols"
    "0 \<le> rows" "0 \<le> cols"
  shows "dom (strandi st) = set (cells rows cols)"
proof -
  have sub: "dom (strandi st) \<subseteq> set (cells rows cols)" using assms(1) by (simp add: inv_state_def)
  have "int (card (set (cells rows cols))) = rows * cols" using assms(3,4) by (simp add: card_cells)
  with assms(2) have "int (card (set (cells rows cols))) \<le> int (card (dom (strandi st)))"
    by linarith
  then have "card (set (cells rows cols)) \<le> card (dom (strandi st))" by (simp only: of_nat_le_iff)
  with sub show ?thesis by (intro card_seteq) auto
qed

section \<open>Walking a strand from end to end\<close>

lemma mset_single_list: "mset xs = {#x#} \<Longrightarrow> xs = [x]"
  by (cases xs) auto

lemma walk_along:
  assumes p: "is_path A p"
  shows "k < length p \<Longrightarrow> walk A (last p) (hd p # take (Suc k) p) = Some (Inr (hd p # p))"
proof (induction "length p - Suc k" arbitrary: k)
  case 0
  then have "take (Suc k) p = p" by simp
  moreover have "p \<noteq> []" using p by (simp add: is_path_def)
  ultimately show ?case by (subst walk.simps) simp
next
  case (Suc d)
  from p have pne: "p \<noteq> []" and dp: "distinct p"
    and ap: "\<And>k. k < length p \<Longrightarrow> \<exists>ns. A (p ! k) = Some ns \<and> mset ns = mset (nbrs p k)"
    by (auto simp: is_path_def)
  from Suc.hyps(2) have k: "Suc k < length p" by simp
  let ?seq = "hd p # take (Suc k) p"
  have ls: "last ?seq = p ! k" using k by (simp add: take_Suc_conv_app_nth)
  have "p ! k \<noteq> p ! (length p - 1)" using dp k by (simp add: nth_eq_iff_index_eq)
  then have ne: "last ?seq \<noteq> last p" using ls pne by (simp add: last_conv_nth)
  define prev where "prev = last (butlast ?seq)"
  have sq: "?seq = (hd p # take k p) @ [p ! k]" using k by (simp add: take_Suc_conv_app_nth)
  have bl: "butlast ?seq = hd p # take k p" unfolding sq by (rule butlast_snoc)
  have prev: "prev = (if k = 0 then p ! 0 else p ! (k - 1))"
  proof (cases k)
    case 0
    then show ?thesis using pne unfolding prev_def bl by (simp add: hd_conv_nth)
  next
    case (Suc k')
    with k have "take k p = take k' p @ [p ! k']"
      by (simp add: take_Suc_conv_app_nth)
    then show ?thesis using Suc unfolding prev_def bl by simp
  qed
  from ap[of k] k obtain ns where ns: "A (p ! k) = Some ns" "mset ns = mset (nbrs p k)" by auto
  have nx: "p ! Suc k \<noteq> prev"
  proof (cases k)
    case 0
    have "p ! Suc 0 \<noteq> p ! 0" using dp k 0 by (subst nth_eq_iff_index_eq) auto
    then show ?thesis using 0 prev by simp
  next
    case (Suc k')
    have "p ! Suc k \<noteq> p ! k'" using dp k Suc by (subst nth_eq_iff_index_eq) auto
    then show ?thesis using Suc prev by simp
  qed
  have "mset (filter (\<lambda>y. y \<noteq> prev) ns) = filter_mset (\<lambda>y. y \<noteq> prev) (mset (nbrs p k))"
    using ns(2) by (metis mset_filter)
  also have "\<dots> = {#p ! Suc k#}" using k nx by (auto simp: nbrs_def prev)
  finally have "filter (\<lambda>y. y \<noteq> prev) ns = [p ! Suc k]" by (rule mset_single_list)
  then have step: "remdups (filter (\<lambda>y. y \<noteq> last (butlast ?seq)) ns) = [p ! Suc k]"
    by (simp add: prev_def)
  have "?seq @ [p ! Suc k] = hd p # take (Suc (Suc k)) p"
    using k by (simp add: take_Suc_conv_app_nth)
  moreover have "walk A (last p) (hd p # take (Suc (Suc k)) p) = Some (Inr (hd p # p))"
    using Suc.hyps(2) k by (intro Suc.hyps(1)) auto
  ultimately have "walk A (last p) (?seq @ [p ! Suc k]) = Some (Inr (hd p # p))" by simp
  then show ?case
    using ne ns(1) ls step by (subst walk.simps) (simp del: butlast.simps last.simps)
qed

lemma walk_path:
  assumes "is_path A p"
  shows "walk A (last p) [hd p, hd p] = Some (Inr (hd p # p))"
proof -
  from assms have "p \<noteq> []" by (simp add: is_path_def)
  then have "take (Suc 0) p = [hd p]" by (cases p) auto
  with walk_along[OF assms, of 0] \<open>p \<noteq> []\<close> show ?thesis by simp
qed

lemma distinct_two:
  assumes "distinct f" "set f = {u, v}" "u \<noteq> v"
  shows "f = [u, v] \<or> f = [v, u]"
proof -
  have "length f = 2" using assms by (metis distinct_card card_2_iff)
  then obtain x y where f: "f = [x, y]"
    by (metis length_0_conv length_Suc_conv numeral_2_eq_2)
  with assms show ?thesis by (auto simp: doubleton_eq_iff)
qed

lemma path_degree:
  assumes p: "is_path A p" and k: "k < length p" and l: "2 \<le> length p"
  shows "\<exists>ns. A (p ! k) = Some ns \<and> length ns \<le> 2 \<and> set ns \<subseteq> set p \<and>
           (length ns = 1 \<longleftrightarrow> k = 0 \<or> k = length p - 1)"
proof -
  from p k obtain ns where ns: "A (p ! k) = Some ns" "mset ns = mset (nbrs p k)"
    by (auto simp: is_path_def)
  from ns(2) have len: "length ns = length (nbrs p k)" by (metis size_mset)
  from ns(2) have "set ns = set (nbrs p k)" by (metis set_mset_mset)
  then have "set ns \<subseteq> set p" using k by (auto simp: nbrs_def)
  moreover have "length (nbrs p k) \<le> 2" by (simp add: nbrs_def)
  moreover have "length (nbrs p k) = 1 \<longleftrightarrow> k = 0 \<or> k = length p - 1"
    using k l by (auto simp: nbrs_def)
  ultimately show ?thesis using ns(1) len by simp
qed

lemma degree_one_path:
  assumes p: "is_path A p" and l: "2 \<le> length p" and m: "mset strand = mset p"
  shows "degree_one A strand = Inr [hd p, last p] \<or> degree_one A strand = Inr [last p, hd p]"
proof -
  from p have pne: "p \<noteq> []" and dp: "distinct p" by (auto simp: is_path_def)
  have sp: "set strand = set p" using m by (metis set_mset_mset)
  have ds: "distinct strand" using mset_eq_imp_distinct_iff[OF m] dp by simp
  have key: "\<not> list_ex (\<lambda>x. A x = None) strand"
    using path_degree[OF p _ l] sp by (fastforce simp: list_ex_iff in_set_conv_nth)
  let ?f = "filter (\<lambda>x. length (the (A x)) = 1) strand"
  have hl: "hd p = p ! 0" "last p = p ! (length p - 1)"
    using pne by (simp_all add: hd_conv_nth last_conv_nth)
  have "set ?f = {hd p, last p}"
  proof (intro set_eqI iffI)
    fix x assume "x \<in> set ?f"
    then have x: "x \<in> set p" "length (the (A x)) = 1" using sp by auto
    then obtain k where k: "k < length p" "p ! k = x" by (auto simp: in_set_conv_nth)
    from path_degree[OF p k(1) l] x(2) k(2) have "k = 0 \<or> k = length p - 1" by auto
    with k hl show "x \<in> {hd p, last p}" by auto
  next
    fix x assume "x \<in> {hd p, last p}"
    then consider "x = p ! 0" | "x = p ! (length p - 1)" using hl by auto
    then show "x \<in> set ?f"
    proof cases
      case 1
      have "0 < length p" using pne by simp
      from path_degree[OF p this l] 1 sp pne show ?thesis by auto
    next
      case 2
      have "length p - 1 < length p" using pne by simp
      from path_degree[OF p this l] 2 sp pne show ?thesis by auto
    qed
  qed
  moreover have "distinct ?f" using ds by simp
  moreover have "hd p \<noteq> last p"
  proof -
    have "0 < length p" "length p - 1 < length p" "0 \<noteq> length p - 1" using l by auto
    then show ?thesis using dp unfolding hl by (simp add: nth_eq_iff_index_eq)
  qed
  ultimately have "?f = [hd p, last p] \<or> ?f = [last p, hd p]"
    using distinct_two[of ?f "hd p" "last p"] by blast
  then show ?thesis using key by (auto simp: degree_one_def)
qed

section \<open>Cleansing a path-shaped strand\<close>

lemma front_pops_le: "front_pops n g \<le> n"
  unfolding front_pops_def by (metis length_filter_le length_stake)

lemma front_pops_Suc:
  "front_pops (Suc n) g = (if shd g mod 2 \<noteq> 0 then Suc (front_pops n (stl g)) else front_pops n (stl g))"
  by (simp add: front_pops_def)

lemma trim_result:
  "n \<le> length seq \<Longrightarrow>
   trim n seq g = Inr (drop (front_pops n g) (take (length seq - (n - front_pops n g)) seq), sdrop n g)"
proof (induction n arbitrary: seq g)
  case 0
  then show ?case by (simp add: front_pops_def)
next
  case (Suc n)
  then have ne: "seq \<noteq> []" by auto
  let ?f = "front_pops n (stl g)"
  have fle: "?f \<le> n" by (rule front_pops_le)
  show ?case
  proof (cases "shd g mod 2 \<noteq> 0")
    case True
    have "n \<le> length (tl seq)" using Suc.prems by simp
    from Suc.IH[OF this, of "stl g"]
    have "trim n (tl seq) (stl g) = Inr (drop ?f (take (length (tl seq) - (n - ?f)) (tl seq)), sdrop n (stl g))" .
    moreover have "drop ?f (take (length (tl seq) - (n - ?f)) (tl seq))
        = drop (Suc ?f) (take (length seq - (n - ?f)) seq)"
    proof -
      have "take (length (tl seq) - (n - ?f)) (tl seq) = tl (take (Suc (length (tl seq) - (n - ?f))) seq)"
        by (simp add: tl_take)
      moreover have "Suc (length (tl seq) - (n - ?f)) = length seq - (n - ?f)"
        using Suc.prems fle ne by (simp add: Suc_diff_le)
      ultimately show ?thesis by (simp add: drop_Suc drop_tl)
    qed
    ultimately show ?thesis using True ne
      by (simp add: randbelow_def front_pops_Suc)
  next
    case False
    have "n \<le> length (butlast seq)" using Suc.prems by simp
    from Suc.IH[OF this, of "stl g"]
    have "trim n (butlast seq) (stl g) =
       Inr (drop ?f (take (length (butlast seq) - (n - ?f)) (butlast seq)), sdrop n (stl g))" .
    moreover have "take (length (butlast seq) - (n - ?f)) (butlast seq)
        = take (length seq - (Suc n - ?f)) seq"
      using fle by (simp add: butlast_conv_take Suc_diff_le min_def)
    ultimately show ?thesis using False ne
      by (simp add: randbelow_def front_pops_Suc)
  qed
qed

lemma trim_amount_le: "int (trim_amount s L g) \<le> max 0 (trim_bound s L)" "trim_amount s L g \<le> 2"
proof -
  show "int (trim_amount s L g) \<le> max 0 (trim_bound s L)"
  proof (cases "0 < trim_bound s L")
    case True
    then have "shd g mod (nat (trim_bound s L) + 1) < nat (trim_bound s L) + 1" by simp
    then have "int (shd g mod (nat (trim_bound s L) + 1)) \<le> trim_bound s L" using True by linarith
    then show ?thesis using True unfolding trim_amount_def by simp
  next
    case False
    then show ?thesis by (simp add: trim_amount_def)
  qed
  moreover have "trim_bound s L \<le> 2" by (simp add: trim_bound_def)
  ultimately show "trim_amount s L g \<le> 2" by linarith
qed

lemma cleanse_path:
  fixes s :: DifficultySettings and g :: rng
  assumes p: "is_path A p" and l: "2 \<le> length p" and m: "mset strand = mset p"
  defines "L \<equiv> length strand"
  defines "t \<equiv> trim_amount s L g"
  defines "f \<equiv> front_pops t (trim_rng s L g)"
  shows "\<exists>a b w. degree_one A strand = Inr [a, b] \<and> a \<noteq> b \<and>
           walk A b [a, a] = Some (Inr (a # w)) \<and> is_path A w \<and> mset w = mset strand \<and>
           hd w = a \<and> last w = b \<and>
           cleanse s A strand g = Some (Inr (drop f (take (L - (t - f)) w), sdrop t (trim_rng s L g)))"
proof -
  have Lp: "L = length p" unfolding L_def using m by (metis size_mset)
  from p have pne: "p \<noteq> []" and dp: "distinct p" by (auto simp: is_path_def)
  have hl: "hd p \<noteq> last p"
  proof -
    have "0 < length p" "length p - 1 < length p" "0 \<noteq> length p - 1" using l by auto
    then have "p ! 0 \<noteq> p ! (length p - 1)" using dp by (simp add: nth_eq_iff_index_eq)
    then show ?thesis using pne by (simp add: hd_conv_nth last_conv_nth)
  qed
  have main: "\<exists>a b. degree_one A strand = Inr [a, b] \<and> a \<noteq> b \<and>
           walk A b [a, a] = Some (Inr (a # w)) \<and> hd w = a \<and> last w = b \<and>
           cleanse s A strand g = Some (Inr (drop f (take (L - (t - f)) w), sdrop t (trim_rng s L g)))"
    if w: "is_path A w" "length w = L" and d1: "degree_one A strand = Inr [hd w, last w]"
      and ne: "hd w \<noteq> last w" for w
  proof -
    have wk: "walk A (last w) [hd w, hd w] = Some (Inr (hd w # w))" using walk_path[OF w(1)] .
    let ?seq = "hd w # w"
    have ct: "min (int (length ?seq) - distl s) 2 = trim_bound s L"
      using w(2) by (simp add: trim_bound_def)
    have tle: "t \<le> 2" unfolding t_def by (rule trim_amount_le)
    have L2: "2 \<le> L" using l Lp by simp
    have tl: "t \<le> length ?seq" using tle L2 w(2) by simp
    have fle: "f \<le> t" unfolding f_def by (rule front_pops_le)
    have tr: "trim t ?seq (trim_rng s L g) =
        Inr (drop f (take (length ?seq - (t - f)) ?seq), sdrop t (trim_rng s L g))"
      using trim_result[OF tl] by (simp add: f_def)
    have tk: "take (length ?seq - (t - f)) ?seq = hd w # take (L - (t - f)) w"
      using w(2) tle L2 fle by (simp add: take_Cons' Suc_diff_le)
    have ne': "drop f (hd w # take (L - (t - f)) w) \<noteq> []"
      using w(2) tle L2 fle by simp
    have res: "tl (drop f (hd w # take (L - (t - f)) w)) = drop f (take (L - (t - f)) w)"
      by (simp add: drop_Suc[symmetric] tl_drop)
    have draw: "(if 0 < trim_bound s L
           then case randbelow (nat (trim_bound s L) + 1) g of (t, g') \<Rightarrow> (int t, g')
           else (trim_bound s L, g)) = (if 0 < trim_bound s L then int t else trim_bound s L, trim_rng s L g)"
      by (simp add: randbelow_def t_def trim_amount_def trim_rng_def)
    have nat_t: "nat (if 0 < trim_bound s L then int t else trim_bound s L) = t"
      by (simp add: t_def trim_amount_def)
    have "cleanse s A strand g = Some (Inr (drop f (take (L - (t - f)) w), sdrop t (trim_rng s L g)))"
      unfolding cleanse_def d1 using wk ct draw nat_t tr tk ne' res
      by (simp del: trim.simps)
    with d1 wk ne show ?thesis by auto
  qed
  from degree_one_path[OF p l m] show ?thesis
  proof
    assume d1: "degree_one A strand = Inr [hd p, last p]"
    from main[OF p Lp[symmetric] d1 hl] m p show ?thesis by auto
  next
    assume d1: "degree_one A strand = Inr [last p, hd p]"
    have "degree_one A strand = Inr [hd (rev p), last (rev p)]"
      using d1 pne by (simp add: hd_rev last_rev)
    moreover have "hd (rev p) \<noteq> last (rev p)" using hl pne by (simp add: hd_rev last_rev)
    moreover have "length (rev p) = L" using Lp by simp
    ultimately show ?thesis using main[OF is_path_rev[OF p]] m is_path_rev[OF p]
      by (metis mset_rev)
  qed
qed

section \<open>The state at the exit of the strand builder\<close>

lemma final_state:
  assumes "build_strands s (init_state (r s) (c s) g) = Some (Inr st)"
  shows "loop_state s g st" "inv_state (r s) (c s) st"
    "\<not> int (card (dom (strandi st))) < r s * c s"
    "\<And>strand. strand \<in> set (strands st) \<Longrightarrow> 1 < length strand"
proof -
  from build_strands_partial[OF assms loop_state.start]
  show ls: "loop_state s g st" and "\<not> int (card (dom (strandi st))) < r s * c s" by auto
  from loop_state_inv[OF ls] show "inv_state (r s) (c s) st"
    and "\<And>strand. strand \<in> set (strands st) \<Longrightarrow> 1 < length strand" by auto
qed

lemma final_strand:
  assumes "build_strands s (init_state (r s) (c s) g) = Some (Inr st)" "strand \<in> set (strands st)"
  shows "2 \<le> length strand" "distinct strand" "set strand \<subseteq> set (cells (r s) (c s))"
    "\<exists>p. mset p = mset strand \<and> is_path (adj st) p \<and> 2 \<le> length p"
proof -
  from final_state(4)[OF assms] show l: "2 \<le> length strand" by simp
  from final_state(2)[OF assms(1)] have inv: "inv_state (r s) (c s) st" .
  from inv assms(2) obtain p where p: "mset p = mset strand" "is_path (adj st) p"
    unfolding inv_state_def by blast
  from p(1) have "length p = length strand" by (metis size_mset)
  with p l show "\<exists>p. mset p = mset strand \<and> is_path (adj st) p \<and> 2 \<le> length p" by auto
  from p(2) have "distinct p" by (simp add: is_path_def)
  with mset_eq_imp_distinct_iff[OF p(1)] show "distinct strand" by simp
  have "set strand \<subseteq> set (concat (strands st))" using assms(2) by auto
  with inv show "set strand \<subseteq> set (cells (r s) (c s))" unfolding inv_state_def by blast
qed


section \<open>The paths of one attempt\<close>

lemma mset_concat_perm: "mset xs = mset ys \<Longrightarrow> mset (concat xs) = mset (concat ys)"
proof -
  assume a: "mset xs = mset ys"
  have "mset (concat zs) = sum_mset (image_mset mset (mset zs))" for zs :: "'a list list"
    by (simp add: mset_concat flip: sum_mset_sum_list)
  with a show ?thesis by simp
qed

lemma distinct_concat_perm:
  "mset xs = mset ys \<Longrightarrow> distinct (concat xs) \<Longrightarrow> distinct (concat ys)"
  using mset_concat_perm[THEN mset_eq_imp_distinct_iff] by blast

lemma distinct_concat_take: "distinct (concat xs) \<Longrightarrow> distinct (concat (take n xs))"
proof -
  assume "distinct (concat xs)"
  then have "distinct (concat (take n xs @ drop n xs))" by simp
  then show ?thesis unfolding concat_append by simp
qed

lemma distinct_concat_sub:
  "list_all2 (\<lambda>s p. set p \<subseteq> set s \<and> distinct p) ss ps \<Longrightarrow> distinct (concat ss) \<Longrightarrow>
   distinct (concat ps)"
proof (induction rule: list_all2_induct)
  case Nil
  then show ?case by simp
next
  case (Cons s ss p ps)
  have "\<Union> (set ` set ps) \<subseteq> \<Union> (set ` set ss)"
    using Cons.hyps(2) by (induction rule: list_all2_induct) auto
  then show ?case using Cons by auto
qed

lemma list_all2_mem:
  "list_all2 P xs ys \<Longrightarrow> list_all2 (\<lambda>x y. x \<in> set xs \<and> y \<in> set ys \<and> P x y) xs ys"
proof (induction rule: list_all2_induct)
  case Nil
  then show ?case by simp
next
  case (Cons x xs y ys)
  from Cons.IH have "list_all2 (\<lambda>a b. a \<in> set (x # xs) \<and> b \<in> set (y # ys) \<and> P a b) xs ys"
    by (rule list_all2_mono) auto
  with Cons.hyps(1) show ?case by simp
qed

lemma list_all2_right:
  "list_all2 P xs ys \<Longrightarrow> y \<in> set ys \<Longrightarrow> \<exists>x\<in>set xs. P x y"
  by (induction rule: list_all2_induct) auto

lemma successively_take: "successively P xs \<Longrightarrow> successively P (take n xs)"
  by (metis append_take_drop_id successively_append_iff)

lemma successively_drop: "successively P xs \<Longrightarrow> successively P (drop n xs)"
  by (metis append_take_drop_id successively_append_iff)

text \<open>What a path cleansed from a path-shaped strand looks like.\<close>

lemma cleanse_shape:
  assumes p: "is_path A p" and l: "2 \<le> length p" and m: "mset strand = mset p"
    and c: "cleanse s A strand g = Some (Inr (path, g'))"
  shows "distinct path \<and> set path \<subseteq> set strand \<and> successively adjacent path \<and>
         length strand \<le> length path + 2"
proof -
  define L where "L = length strand"
  define t where "t = trim_amount s L g"
  define f where "f = front_pops t (trim_rng s L g)"
  from cleanse_path[OF p l m, of s g] obtain w where w: "is_path A w" "mset w = mset strand"
    and cl: "cleanse s A strand g = Some (Inr (drop f (take (L - (t - f)) w), sdrop t (trim_rng s L g)))"
    unfolding L_def t_def f_def by blast
  from c cl have path: "path = drop f (take (L - (t - f)) w)" by simp
  from w(1) have dw: "distinct w" and sw: "successively adjacent w" by (auto simp: is_path_def)
  have "set path \<subseteq> set w" unfolding path by (meson set_drop_subset set_take_subset subset_trans)
  moreover have "set w = set strand" using w(2) by (metis set_mset_mset)
  moreover have "distinct path" unfolding path using dw by simp
  moreover have "successively adjacent path"
    unfolding path using sw by (intro successively_drop successively_take)
  moreover have "length strand \<le> length path + 2"
  proof -
    have "length w = L" using w(2) unfolding L_def by (metis size_mset)
    moreover have "t \<le> 2" unfolding t_def by (rule trim_amount_le)
    moreover have "f \<le> t" unfolding f_def by (rule front_pops_le)
    ultimately show ?thesis unfolding path L_def by simp
  qed
  ultimately show ?thesis by simp
qed

lemma cleanse_all_rel:
  "cleanse_all s A sel g = Some (Inr (ps, g')) \<Longrightarrow>
   list_all2 (\<lambda>strand path. \<exists>g1 g2. cleanse s A strand g1 = Some (Inr (path, g2))) sel ps"
proof (induction sel arbitrary: g ps)
  case Nil
  then show ?case by simp
next
  case (Cons strand rest)
  from Cons.prems obtain p g1 where c1: "cleanse s A strand g = Some (Inr (p, g1))"
    by (auto split: option.splits sum.splits)
  with Cons.prems obtain qs where c2: "cleanse_all s A rest g1 = Some (Inr (qs, g'))" and ps: "ps = p # qs"
    by (auto split: option.splits sum.splits)
  from Cons.IH[OF c2] c1 ps show ?case by auto
qed

lemma try_generating_paths_unfold:
  assumes "try_generating_paths s g = Some (Inr (paths, g'))"
  shows "\<exists>st sh g1 ps g2. build_strands s (init_state (r s) (c s) g) = Some (Inr st) \<and>
           shuffle (strands st) (rand st) = (sh, g1) \<and> 0 \<le> endcl s \<and>
           cleanse_all s (adj st) (take (nat (endcl s)) (sort_key (\<lambda>strand. - int (length strand)) sh)) g1
             = Some (Inr (ps, g2)) \<and>
           shuffled g2 ps = (paths, g')"
proof -
  from assms obtain st where b: "build_strands s (init_state (r s) (c s) g) = Some (Inr st)"
    by (auto simp: try_generating_paths_def split: option.splits sum.splits)
  obtain sh g1 where sh: "shuffle (strands st) (rand st) = (sh, g1)"
    by (cases "shuffle (strands st) (rand st)")
  from assms b sh have e: "0 \<le> endcl s"
    by (auto simp: try_generating_paths_def Let_def split: if_splits)
  from assms b sh e obtain ps g2 where
    "cleanse_all s (adj st) (take (nat (endcl s)) (sort_key (\<lambda>strand. - int (length strand)) sh)) g1
       = Some (Inr (ps, g2))" "shuffled g2 ps = (paths, g')"
    by (auto simp: try_generating_paths_def Let_def split: option.splits sum.splits)
  with b sh e show ?thesis by blast
qed

text \<open>The paths of one attempt.\<close>

lemma attempt_shape:
  assumes "try_generating_paths s g = Some (Inr (paths, g'))"
  shows "int (length paths) \<le> endcl s" "distinct (concat paths)"
    "\<And>path. path \<in> set paths \<Longrightarrow> set path \<subseteq> set (cells (r s) (c s)) \<and> successively adjacent path"
proof -
  from try_generating_paths_unfold[OF assms] obtain st sh g1 ps g2 where
    b: "build_strands s (init_state (r s) (c s) g) = Some (Inr st)"
    and sh: "shuffle (strands st) (rand st) = (sh, g1)" and e: "0 \<le> endcl s"
    and ca: "cleanse_all s (adj st) (take (nat (endcl s)) (sort_key (\<lambda>strand. - int (length strand)) sh)) g1
             = Some (Inr (ps, g2))"
    and sp: "shuffled g2 ps = (paths, g')" by blast
  let ?sel = "take (nat (endcl s)) (sort_key (\<lambda>strand. - int (length strand)) sh)"
  have msh: "mset sh = mset (strands st)" using shuffle_mset[of "strands st" "rand st"] sh by simp
  have mp: "mset paths = mset ps" using shuffled_mset[of g2 ps] sp by simp
  from final_state(2)[OF b] have dc: "distinct (concat (strands st))" by (simp add: inv_state_def)
  have "mset (strands st) = mset (sort_key (\<lambda>strand. - int (length strand)) sh)" using msh by simp
  from distinct_concat_perm[OF this dc] have dsel: "distinct (concat ?sel)"
    by (rule distinct_concat_take)
  have selsub: "set ?sel \<subseteq> set (strands st)"
    using msh by (metis set_take_subset set_sort set_mset_mset)
  have rel: "list_all2 (\<lambda>strand path. \<exists>g1 g2. cleanse s (adj st) strand g1 = Some (Inr (path, g2))) ?sel ps"
    using cleanse_all_rel[OF ca] .
  have rel2: "list_all2 (\<lambda>strand path. strand \<in> set ?sel \<and>
      (\<exists>g1 g2. cleanse s (adj st) strand g1 = Some (Inr (path, g2)))) ?sel ps"
    using list_all2_mem[OF rel] by (rule list_all2_mono) auto
  have shape: "distinct path \<and> set path \<subseteq> set strand \<and> successively adjacent path"
    if "strand \<in> set ?sel" "cleanse s (adj st) strand g1 = Some (Inr (path, g2))" for strand path g1 g2
  proof -
    from that(1) selsub have "strand \<in> set (strands st)" by blast
    from final_strand(4)[OF b this] obtain p where "mset p = mset strand" "is_path (adj st) p"
      "2 \<le> length p" by blast
    from cleanse_shape[OF this(2,3) this(1)[symmetric] that(2)] show ?thesis by simp
  qed
  have rel3: "list_all2 (\<lambda>strand path. set path \<subseteq> set strand \<and> distinct path) ?sel ps"
    using rel2 by (rule list_all2_mono) (use shape in blast)
  from distinct_concat_sub[OF rel3 dsel] have "distinct (concat ps)" .
  with distinct_concat_perm[OF mp[symmetric]] show "distinct (concat paths)" by simp
  have "length paths = length ps" using mp by (metis size_mset)
  also have "\<dots> = length ?sel" using list_all2_lengthD[OF rel] by (rule sym)
  also have "\<dots> \<le> nat (endcl s)" by simp
  finally show "int (length paths) \<le> endcl s" using e by simp
  fix path assume "path \<in> set paths"
  then have "path \<in> set ps" using mp by (metis set_mset_mset)
  from list_all2_right[OF rel2 this] obtain strand where st: "strand \<in> set ?sel"
    "\<exists>g1 g2. cleanse s (adj st) strand g1 = Some (Inr (path, g2))"
    by blast
  with shape have "set path \<subseteq> set strand" "successively adjacent path" by blast+
  moreover have "set strand \<subseteq> set (cells (r s) (c s))"
    using final_strand(3)[OF b] st(1) selsub by blast
  ultimately show "set path \<subseteq> set (cells (r s) (c s)) \<and> successively adjacent path" by blast
qed

section \<open>The search over attempts\<close>

lemma acceptable_True_iff: "acceptable s paths = Inr True \<longleftrightarrow> (\<forall>path\<in>set paths. path_ok s path)"
  by (induction paths) (auto simp: path_ok_def)

lemma acceptable_strict:
  "1 \<le> pathl s \<Longrightarrow>
     acceptable s paths = Inr (\<forall>path\<in>set paths. pathl s \<le> int (length path) \<and>
        distl s \<le> dist (fst (hd path)) (snd (hd path)) (fst (last path)) (snd (last path)))"
  by (induction paths) auto

lemma acceptable_False_iff:
  "acceptable s paths = Inr False \<longleftrightarrow>
     (\<exists>pre bad rest. paths = pre @ bad # rest \<and> (\<forall>p\<in>set pre. path_ok s p) \<and>
        \<not> path_ok s bad \<and> (bad = [] \<longrightarrow> 0 < pathl s))"
proof (induction paths)
  case Nil
  show ?case by simp
next
  case (Cons path paths)
  show ?case
  proof (cases "path_ok s path")
    case True
    have "(\<exists>pre bad rest. path # paths = pre @ bad # rest \<and> (\<forall>p\<in>set pre. path_ok s p) \<and>
        \<not> path_ok s bad \<and> (bad = [] \<longrightarrow> 0 < pathl s))
      \<longleftrightarrow> (\<exists>pre bad rest. paths = pre @ bad # rest \<and> (\<forall>p\<in>set pre. path_ok s p) \<and>
        \<not> path_ok s bad \<and> (bad = [] \<longrightarrow> 0 < pathl s))" (is "?L \<longleftrightarrow> ?R")
    proof
      assume ?L
      then obtain pre bad rest where e: "path # paths = pre @ bad # rest"
        and p: "\<forall>p\<in>set pre. path_ok s p" "\<not> path_ok s bad" "bad = [] \<longrightarrow> 0 < pathl s" by blast
      from e p(2) True obtain pre' where "pre = path # pre'" by (cases pre) auto
      with e p show ?R by auto
    next
      assume ?R
      then obtain pre bad rest where e: "paths = pre @ bad # rest"
        and p: "\<forall>p\<in>set pre. path_ok s p" "\<not> path_ok s bad" "bad = [] \<longrightarrow> 0 < pathl s" by blast
      from e have "path # paths = (path # pre) @ bad # rest" by simp
      moreover from p True have "\<forall>p\<in>set (path # pre). path_ok s p" by simp
      ultimately show ?L using p by blast
    qed
    with Cons.IH True show ?thesis by (simp add: path_ok_def)
  next
    case False
    have "(\<exists>pre bad rest. path # paths = pre @ bad # rest \<and> (\<forall>p\<in>set pre. path_ok s p) \<and>
        \<not> path_ok s bad \<and> (bad = [] \<longrightarrow> 0 < pathl s))
      \<longleftrightarrow> (path = [] \<longrightarrow> 0 < pathl s)" (is "?L \<longleftrightarrow> ?R")
    proof
      assume ?L
      then obtain pre bad rest where e: "path # paths = pre @ bad # rest"
        and p: "\<forall>p\<in>set pre. path_ok s p" "\<not> path_ok s bad" "bad = [] \<longrightarrow> 0 < pathl s" by blast
      from e p(1) False have "pre = []" by (cases pre) auto
      with e p show ?R by simp
    next
      assume ?R
      with False have "path # paths = [] @ path # paths \<and> (\<forall>p\<in>set []. path_ok s p) \<and>
        \<not> path_ok s path \<and> (path = [] \<longrightarrow> 0 < pathl s)" by simp
      then show ?L by blast
    qed
    with False show ?thesis by (auto simp: path_ok_def)
  qed
qed

lemma acceptable_error_iff:
  "acceptable s paths = Inl e \<longleftrightarrow>
     e = IndexError \<and> pathl s \<le> 0 \<and>
     (\<exists>pre rest. paths = pre @ [] # rest \<and> (\<forall>p\<in>set pre. path_ok s p))"
proof (induction paths)
  case Nil
  show ?case by simp
next
  case (Cons path paths)
  show ?case
  proof (cases "path_ok s path")
    case True
    then have ne: "path \<noteq> []" by (simp add: path_ok_def)
    have "(\<exists>pre rest. path # paths = pre @ [] # rest \<and> (\<forall>p\<in>set pre. path_ok s p))
      \<longleftrightarrow> (\<exists>pre rest. paths = pre @ [] # rest \<and> (\<forall>p\<in>set pre. path_ok s p))" (is "?L \<longleftrightarrow> ?R")
    proof
      assume ?L
      then obtain pre rest where e: "path # paths = pre @ [] # rest"
        and p: "\<forall>p\<in>set pre. path_ok s p" by blast
      from e ne obtain pre' where "pre = path # pre'" by (cases pre) auto
      with e p show ?R by auto
    next
      assume ?R
      then obtain pre rest where e: "paths = pre @ [] # rest"
        and p: "\<forall>p\<in>set pre. path_ok s p" by blast
      from e have "path # paths = (path # pre) @ [] # rest" by simp
      moreover from p True have "\<forall>p\<in>set (path # pre). path_ok s p" by simp
      ultimately show ?L by blast
    qed
    with Cons.IH True show ?thesis by (simp add: path_ok_def)
  next
    case False
    have "(\<exists>pre rest. path # paths = pre @ [] # rest \<and> (\<forall>p\<in>set pre. path_ok s p))
      \<longleftrightarrow> path = []" (is "?L \<longleftrightarrow> ?R")
    proof
      assume ?L
      then obtain pre rest where e: "path # paths = pre @ [] # rest"
        and p: "\<forall>p\<in>set pre. path_ok s p" by blast
      from e p False have "pre = []" by (cases pre) auto
      with e show ?R by simp
    next
      assume ?R
      then have "path # paths = [] @ [] # paths \<and> (\<forall>p\<in>set []. path_ok s p)" by simp
      then show ?L by blast
    qed
    with False show ?thesis by (auto simp: path_ok_def)
  qed
qed

lemma max_by_first:
  "\<exists>i. i < length (best # xs) \<and> (best # xs) ! i = max_by key best xs \<and>
       (\<forall>j<i. key ((best # xs) ! j) < key (max_by key best xs)) \<and>
       (\<forall>j<length (best # xs). key ((best # xs) ! j) \<le> key (max_by key best xs))"
proof (induction xs arbitrary: best)
  case Nil
  then show ?case by simp
next
  case (Cons x xs)
  show ?case
  proof (cases "key best < key x")
    case True
    let ?m = "max_by key x xs"
    from Cons.IH[of x] obtain i where i: "i < length (x # xs)" "(x # xs) ! i = ?m"
      "\<forall>j<i. key ((x # xs) ! j) < key ?m" "\<forall>j<length (x # xs). key ((x # xs) ! j) \<le> key ?m"
      by blast
    from i(4) have xm: "key x \<le> key ?m" by auto
    have m: "max_by key best (x # xs) = ?m" using True by simp
    have a: "Suc i < length (best # x # xs)" using i(1) by simp
    have b: "(best # x # xs) ! Suc i = ?m" using i(2) by simp
    have c: "\<forall>j<Suc i. key ((best # x # xs) ! j) < key ?m"
    proof (intro allI impI)
      fix j assume "j < Suc i"
      then show "key ((best # x # xs) ! j) < key ?m"
        using i(3) True xm by (cases j) auto
    qed
    have d: "\<forall>j<length (best # x # xs). key ((best # x # xs) ! j) \<le> key ?m"
    proof (intro allI impI)
      fix j assume "j < length (best # x # xs)"
      then show "key ((best # x # xs) ! j) \<le> key ?m"
        using i(4) True xm by (cases j) auto
    qed
    from a b c d show ?thesis unfolding m by blast
  next
    case False
    let ?m = "max_by key best xs"
    from Cons.IH[of best] obtain i where i: "i < length (best # xs)" "(best # xs) ! i = ?m"
      "\<forall>j<i. key ((best # xs) ! j) < key ?m" "\<forall>j<length (best # xs). key ((best # xs) ! j) \<le> key ?m"
      by blast
    from i(4) have bm: "key best \<le> key ?m" by auto
    have m: "max_by key best (x # xs) = ?m" using False by simp
    have d: "\<forall>j<length (best # x # xs). key ((best # x # xs) ! j) \<le> key ?m"
    proof (intro allI impI)
      fix j assume j: "j < length (best # x # xs)"
      show "key ((best # x # xs) ! j) \<le> key ?m"
      proof (cases j)
        case 0
        then show ?thesis using bm by simp
      next
        case (Suc j')
        show ?thesis
        proof (cases j')
          case 0
          then show ?thesis using Suc False bm by auto
        next
          case (Suc j'')
          then show ?thesis using \<open>j = Suc j'\<close> i(4) j by auto
        qed
      qed
    qed
    show ?thesis
    proof (cases i)
      case 0
      then have "(best # x # xs) ! 0 = ?m" using i(2) by simp
      then show ?thesis unfolding m using d by (intro exI[of _ 0]) simp
    next
      case (Suc i')
      have a: "Suc (Suc i') < length (best # x # xs)" using i(1) Suc by simp
      have b: "(best # x # xs) ! Suc (Suc i') = ?m" using i(2) Suc by simp
      have b0: "key best < key ?m" using i(3) Suc by auto
      have c: "\<forall>j<Suc (Suc i'). key ((best # x # xs) ! j) < key ?m"
      proof (intro allI impI)
        fix j assume j: "j < Suc (Suc i')"
        show "key ((best # x # xs) ! j) < key ?m"
        proof (cases j)
          case 0
          then show ?thesis using b0 by simp
        next
          case j1: (Suc j')
          show ?thesis
          proof (cases j')
            case 0
            then show ?thesis using j1 False b0 by auto
          next
            case (Suc j'')
            then show ?thesis using j1 i(3) j \<open>i = Suc i'\<close> by auto
          qed
        qed
      qed
      from a b c d show ?thesis unfolding m by blast
    qed
  qed
qed

lemma run_tries_Suc:
  "try_generating_paths s g = Some (Inr (paths, g1)) \<Longrightarrow> run_tries s k g1 = Some (rest, g2) \<Longrightarrow>
   run_tries s (Suc k) g = Some (paths # rest, g2)"
  by simp

lemma generate_acceptable_forward:
  assumes "generate_acceptable_paths s n acc g = Some (Inr (res, g'))"
  shows "\<exists>k tries. run_tries s k g = Some (tries, g') \<and> res = acc @ filter (accepted s) tries \<and>
           length (filter (accepted s) tries) = n \<and> (tries \<noteq> [] \<longrightarrow> accepted s (last tries)) \<and>
           (\<forall>a\<in>set tries. \<exists>b. acceptable s a = Inr b)"
proof -
  let ?Q = "\<lambda>s n acc g (y :: error + cell list list list \<times> rng). \<forall>res g'. y = Inr (res, g') \<longrightarrow>
          (\<exists>k tries. run_tries s k g = Some (tries, g') \<and> res = acc @ filter (accepted s) tries \<and>
           length (filter (accepted s) tries) = n \<and> (tries \<noteq> [] \<longrightarrow> accepted s (last tries)) \<and>
           (\<forall>a\<in>set tries. \<exists>b. acceptable s a = Inr b))"
  have "?Q s n acc g (Inr (res, g'))"
  proof (rule generate_acceptable_paths.raw_induct[where P = ?Q, OF _ assms])
    fix gen s n acc g y
    assume IH: "\<And>s n acc g y. gen s n acc g = Some y \<Longrightarrow> ?Q s n acc g y"
      and eq: "(if n = 0 then Some (Inr (acc, g))
           else case try_generating_paths s g of None \<Rightarrow> None
                | Some (Inl e) \<Rightarrow> Some (Inl e)
                | Some (Inr (paths, g')) \<Rightarrow>
                    (case acceptable s paths of Inl e \<Rightarrow> Some (Inl e)
                     | Inr ok \<Rightarrow>
                         if ok then gen s (n - 1) (acc @ [paths]) g'
                         else gen s n acc g')) = Some y"
    show "?Q s n acc g y"
    proof (intro allI impI)
      fix res g' assume y: "y = Inr (res, g')"
      show "\<exists>k tries. run_tries s k g = Some (tries, g') \<and> res = acc @ filter (accepted s) tries \<and>
           length (filter (accepted s) tries) = n \<and> (tries \<noteq> [] \<longrightarrow> accepted s (last tries)) \<and>
           (\<forall>a\<in>set tries. \<exists>b. acceptable s a = Inr b)"
      proof (cases "n = 0")
        case True
        with eq y have "res = acc" "g' = g" by auto
        with True show ?thesis by (intro exI[of _ 0] exI[of _ "[]"]) simp
      next
        case False
        with eq y obtain paths g1 where t: "try_generating_paths s g = Some (Inr (paths, g1))"
          by (auto split: option.splits sum.splits)
        with eq y False obtain ok where a: "acceptable s paths = Inr ok"
          by (auto split: sum.splits)
        show ?thesis
        proof (cases ok)
          case True
          with eq False t a have "gen s (n - 1) (acc @ [paths]) g1 = Some y" by simp
          from IH[OF this] y obtain k tries where h: "run_tries s k g1 = Some (tries, g')"
            "res = (acc @ [paths]) @ filter (accepted s) tries"
            "length (filter (accepted s) tries) = n - 1" "tries \<noteq> [] \<longrightarrow> accepted s (last tries)"
            "\<forall>a\<in>set tries. \<exists>b. acceptable s a = Inr b" by blast
          have acc: "accepted s paths" using a True by (simp add: accepted_def)
          have "run_tries s (Suc k) g = Some (paths # tries, g')" using run_tries_Suc[OF t h(1)] .
          moreover have "res = acc @ filter (accepted s) (paths # tries)" using h(2) acc by simp
          moreover have "length (filter (accepted s) (paths # tries)) = n" using h(3) acc False by simp
          moreover have "accepted s (last (paths # tries))" using h(4) acc by simp
          moreover have "\<forall>a\<in>set (paths # tries). \<exists>b. acceptable s a = Inr b" using h(5) a by simp
          ultimately show ?thesis by blast
        next
          case nok: False
          with eq False t a have "gen s n acc g1 = Some y" by simp
          from IH[OF this] y obtain k tries where h: "run_tries s k g1 = Some (tries, g')"
            "res = acc @ filter (accepted s) tries"
            "length (filter (accepted s) tries) = n" "tries \<noteq> [] \<longrightarrow> accepted s (last tries)"
            "\<forall>a\<in>set tries. \<exists>b. acceptable s a = Inr b" by blast
          have nacc: "\<not> accepted s paths" using a nok by (simp add: accepted_def)
          have ne: "tries \<noteq> []" using h(3) False by auto
          have "run_tries s (Suc k) g = Some (paths # tries, g')" using run_tries_Suc[OF t h(1)] .
          moreover have "res = acc @ filter (accepted s) (paths # tries)" using h(2) nacc by simp
          moreover have "length (filter (accepted s) (paths # tries)) = n" using h(3) nacc by simp
          moreover have "accepted s (last (paths # tries))" using h(4) ne by simp
          moreover have "\<forall>a\<in>set (paths # tries). \<exists>b. acceptable s a = Inr b" using h(5) a by simp
          ultimately show ?thesis by blast
        qed
      qed
    qed
  qed
  then show ?thesis by blast
qed

lemma generate_acceptable_backward:
  "run_tries s k g = Some (tries, g') \<Longrightarrow> \<forall>a\<in>set tries. \<exists>b. acceptable s a = Inr b \<Longrightarrow>
   length (filter (accepted s) tries) = n \<Longrightarrow> (tries \<noteq> [] \<longrightarrow> accepted s (last tries)) \<Longrightarrow>
   generate_acceptable_paths s n acc g = Some (Inr (acc @ filter (accepted s) tries, g'))"
proof (induction k arbitrary: g tries n acc)
  case 0
  then show ?case by (subst generate_acceptable_paths.simps) simp
next
  case (Suc k)
  from Suc.prems(1) obtain paths g1 rest where t: "try_generating_paths s g = Some (Inr (paths, g1))"
    and r: "run_tries s k g1 = Some (rest, g')" and tr: "tries = paths # rest"
    by (auto split: option.splits sum.splits)
  from Suc.prems(2) tr obtain ok where a: "acceptable s paths = Inr ok" by auto
  have all: "\<forall>a\<in>set rest. \<exists>b. acceptable s a = Inr b" using Suc.prems(2) tr by simp
  show ?case
  proof (cases ok)
    case True
    then have acc: "accepted s paths" using a by (simp add: accepted_def)
    with Suc.prems(3) tr have n: "n = Suc (length (filter (accepted s) rest))" by simp
    have l: "rest \<noteq> [] \<longrightarrow> accepted s (last rest)" using Suc.prems(4) tr by auto
    from Suc.IH[OF r all refl l, of "acc @ [paths]"]
    have "generate_acceptable_paths s (length (filter (accepted s) rest)) (acc @ [paths]) g1 =
       Some (Inr ((acc @ [paths]) @ filter (accepted s) rest, g'))" .
    then show ?thesis using n t a True acc tr
      by (subst generate_acceptable_paths.simps) (simp del: acceptable.simps)
  next
    case False
    then have nacc: "\<not> accepted s paths" using a by (simp add: accepted_def)
    with Suc.prems(4) tr have ne: "rest \<noteq> []" by auto
    then have l: "rest \<noteq> [] \<longrightarrow> accepted s (last rest)" using Suc.prems(4) tr by auto
    have n: "length (filter (accepted s) rest) = n" using Suc.prems(3) tr nacc by simp
    have "accepted s (last rest)" using l ne by simp
    then have "last rest \<in> set (filter (accepted s) rest)" using ne by simp
    then have n0: "n \<noteq> 0" using n by (metis length_0_conv empty_iff empty_set)
    from Suc.IH[OF r all n l, of acc]
    have "generate_acceptable_paths s n acc g1 = Some (Inr (acc @ filter (accepted s) rest, g'))" .
    then show ?thesis using n0 t a False nacc tr
      by (subst generate_acceptable_paths.simps) (simp del: acceptable.simps)
  qed
qed

lemma run_tries_member:
  "run_tries s k g = Some (tries, g') \<Longrightarrow> a \<in> set tries \<Longrightarrow>
   \<exists>g1 g2. try_generating_paths s g1 = Some (Inr (a, g2))"
proof (induction k arbitrary: g tries)
  case 0
  then show ?case by simp
next
  case (Suc k)
  from Suc.prems(1) obtain paths g1 rest where t: "try_generating_paths s g = Some (Inr (paths, g1))"
    and r: "run_tries s k g1 = Some (rest, g')" and tr: "tries = paths # rest"
    by (auto split: option.splits sum.splits)
  show ?case
  proof (cases "a = paths")
    case True
    with t show ?thesis by blast
  next
    case False
    with Suc.prems(2) tr have "a \<in> set rest" by simp
    from Suc.IH[OF r this] show ?thesis .
  qed
qed

lemma generate_paths_unfold:
  assumes "generate_paths quality s g = Some (Inr (best, g'))"
  shows "\<exists>a rest. generate_acceptable_paths s (nat (attemptc s)) [] g = Some (Inr (a # rest, g')) \<and>
           0 \<le> attemptc s \<and> best = max_by quality a rest"
proof -
  from assms have n: "0 \<le> attemptc s" by (auto simp: generate_paths_def split: if_splits)
  with assms obtain attempts where
    ga: "generate_acceptable_paths s (nat (attemptc s)) [] g = Some (Inr (attempts, g'))"
    by (auto simp: generate_paths_def split: option.splits sum.splits list.splits)
  with assms n obtain a rest where "attempts = a # rest" "best = max_by quality a rest"
    by (auto simp: generate_paths_def split: list.splits)
  with ga n show ?thesis by blast
qed

lemma generate_paths_attempt:
  assumes "generate_paths quality s g = Some (Inr (best, g'))"
  shows "accepted s best \<and> (\<exists>g1 g2. try_generating_paths s g1 = Some (Inr (best, g2)))"
proof -
  from generate_paths_unfold[OF assms] obtain a rest where
    ga: "generate_acceptable_paths s (nat (attemptc s)) [] g = Some (Inr (a # rest, g'))"
    and best: "best = max_by quality a rest" by blast
  from generate_acceptable_forward[OF ga] obtain k tries where
    rt: "run_tries s k g = Some (tries, g')" and coll: "a # rest = filter (accepted s) tries" by auto
  from max_by_first[of a rest quality] obtain i where "i < length (a # rest)"
    "(a # rest) ! i = max_by quality a rest" by blast
  then have "best \<in> set (a # rest)" unfolding best by (metis nth_mem)
  with coll have "best \<in> set tries" "accepted s best" by auto
  with run_tries_member[OF rt] show ?thesis by blast
qed


section \<open>Entries of the strand index\<close>

lemma build_round_prune:
  "build_round s st =
     (case round_grow s st of Inl e \<Rightarrow> Inl e
      | Inr st2 \<Rightarrow> Inr (st2\<lparr>strands := filter (\<lambda>strand. length strand > 1) (strands st2)\<rparr>))"
  by (simp add: build_round_def round_grow_def Let_def split: prod.splits)

lemma grow_step_le:
  assumes "grow_step rows cols seeds st = Inr (seeds', st')"
  shows "strandi st \<subseteq>\<^sub>m strandi st'"
  using grow_step_cases[OF assms] by (auto simp: map_le_def)

lemma grow_le: "grow rows cols seeds st = Inr st' \<Longrightarrow> strandi st \<subseteq>\<^sub>m strandi st'"
proof (induction rows cols seeds st rule: grow.induct)
  case (1 rows cols seeds st)
  show ?case
  proof (cases "seeds = []")
    case True
    with "1.prems" show ?thesis by simp
  next
    case False
    with "1.prems" obtain seeds1 st1 where gs: "grow_step rows cols seeds st = Inr (seeds1, st1)"
      by (auto split: sum.splits)
    with "1.prems" False have "grow rows cols seeds1 st1 = Inr st'" by simp
    from "1.IH"[OF False gs refl this] grow_step_le[OF gs] show ?thesis
      by (rule map_le_trans[rotated])
  qed
qed

lemma round_seeds:
  assumes "shuffled (rand st) (filter (\<lambda>x. strandi st x = None) (cells (r s) (c s))) = (all_seeds, g1)"
  shows "distinct (slice_to (endcl s) all_seeds)"
    "set (slice_to (endcl s) all_seeds) \<subseteq> set (cells (r s) (c s))"
    "\<And>x. x \<in> set (slice_to (endcl s) all_seeds) \<Longrightarrow> strandi st x = None"
proof -
  let ?U = "filter (\<lambda>x. strandi st x = None) (cells (r s) (c s))"
  have ms: "mset all_seeds = mset ?U" using shuffled_mset[of "rand st" ?U] assms by simp
  then have sa: "set all_seeds = set ?U" by (metis set_mset_mset)
  have da: "distinct all_seeds" using mset_eq_imp_distinct_iff[OF ms] distinct_cells by simp
  obtain m where m: "slice_to (endcl s) all_seeds = take m all_seeds" using slice_to_take by blast
  show "distinct (slice_to (endcl s) all_seeds)" using da m by simp
  have ss: "set (slice_to (endcl s) all_seeds) \<subseteq> set ?U" using sa m by (metis set_take_subset)
  then show "set (slice_to (endcl s) all_seeds) \<subseteq> set (cells (r s) (c s))" by auto
  fix x assume "x \<in> set (slice_to (endcl s) all_seeds)"
  with ss have "x \<in> set ?U" by blast
  then show "strandi st x = None" by simp
qed

lemma seed_all_le:
  assumes "\<And>x. x \<in> set xs \<Longrightarrow> strandi st x = None"
  shows "strandi st \<subseteq>\<^sub>m strandi (seed_all xs st)"
  unfolding map_le_def
proof
  fix y assume "y \<in> dom (strandi st)"
  then have yn: "strandi st y \<noteq> None" by auto
  have "y \<notin> set xs"
  proof
    assume "y \<in> set xs"
    from assms[OF this] yn show False by simp
  qed
  then show "strandi st y = strandi (seed_all xs st) y" by (simp add: seed_all_strandi_notin)
qed

lemma round_grow_le:
  assumes "round_grow s st = Inr st2"
  shows "strandi st \<subseteq>\<^sub>m strandi st2"
proof -
  obtain all_seeds g1 where sh:
    "shuffled (rand st) (filter (\<lambda>x. strandi st x = None) (cells (r s) (c s))) = (all_seeds, g1)"
    by (cases "shuffled (rand st) (filter (\<lambda>x. strandi st x = None) (cells (r s) (c s)))")
  let ?seeds = "slice_to (endcl s) all_seeds"
  let ?st1 = "seed_all ?seeds (st\<lparr>rand := g1\<rparr>)"
  from assms sh have g: "grow (r s) (c s) (?seeds @ ?seeds) ?st1 = Inr st2"
    by (simp add: round_grow_def Let_def)
  have "strandi (st\<lparr>rand := g1\<rparr>) \<subseteq>\<^sub>m strandi ?st1"
    using round_seeds(3)[OF sh] by (intro seed_all_le) simp
  then have "strandi st \<subseteq>\<^sub>m strandi ?st1" by simp
  with grow_le[OF g] show ?thesis by (rule map_le_trans[rotated])
qed

lemma build_round_le:
  assumes "build_round s st = Inr st'"
  shows "strandi st \<subseteq>\<^sub>m strandi st'"
proof -
  from assms obtain st2 where rg: "round_grow s st = Inr st2"
    and st': "st' = st2\<lparr>strands := filter (\<lambda>strand. length strand > 1) (strands st2)\<rparr>"
    unfolding build_round_prune by (auto split: sum.splits)
  from round_grow_le[OF rg] st' show ?thesis by simp
qed

lemma build_strands_le:
  assumes "build_strands s st = Some res"
  shows "\<forall>st'. res = Inr st' \<longrightarrow> strandi st \<subseteq>\<^sub>m strandi st'"
proof (rule build_strands.raw_induct[where P = "\<lambda>s st res. \<forall>st'. res = Inr st' \<longrightarrow> strandi st \<subseteq>\<^sub>m strandi st'",
      OF _ assms])
  fix bs s st res
  assume IH: "\<And>s st res. bs s st = Some res \<Longrightarrow> \<forall>st'. res = Inr st' \<longrightarrow> strandi st \<subseteq>\<^sub>m strandi st'"
    and eq: "(if int (card (dom (strandi st))) < r s * c s
        then case build_round s st of Inl e \<Rightarrow> Some (Inl e) | Inr st' \<Rightarrow> bs s st'
        else Some (Inr st)) = Some res"
  show "\<forall>st'. res = Inr st' \<longrightarrow> strandi st \<subseteq>\<^sub>m strandi st'"
  proof (intro allI impI)
    fix st' assume res: "res = Inr st'"
    show "strandi st \<subseteq>\<^sub>m strandi st'"
    proof (cases "int (card (dom (strandi st))) < r s * c s")
      case False
      with eq res show ?thesis by simp
    next
      case True
      with eq res obtain st1 where br: "build_round s st = Inr st1" and bs: "bs s st1 = Some res"
        by (auto split: sum.splits)
      from IH[OF bs] res have "strandi st1 \<subseteq>\<^sub>m strandi st'" by simp
      with build_round_le[OF br] show ?thesis by (rule map_le_trans)
    qed
  qed
qed

lemma attach_result:
  assumes "attach x n st = Inr st'"
  shows "\<exists>k. strandi st x = Some k \<and> k < length (strands st) \<and>
           strandi st' = (strandi st)(n \<mapsto> k) \<and>
           strands st' = (strands st)[k := strands st ! k @ [n]]"
  using assms by (auto simp: attach_def Let_def split: option.splits if_splits)

lemma attach_new_index:
  assumes att: "attach x n st = Inr st'" and ni: "new_index D st"
  shows "new_index D st'"
  unfolding new_index_def
proof (intro allI impI)
  fix y j assume y: "strandi st' y = Some j" "y \<notin> D"
  from attach_result[OF att] obtain k where k: "strandi st x = Some k" "k < length (strands st)"
    "strandi st' = (strandi st)(n \<mapsto> k)" "strands st' = (strands st)[k := strands st ! k @ [n]]"
    by blast
  show "j < length (strands st') \<and> y \<in> set (strands st' ! j)"
  proof (cases "y = n")
    case True
    with y k have "j = k" by simp
    with k True show ?thesis by simp
  next
    case False
    with y k have "strandi st y = Some j" by simp
    with ni y(2) have j: "j < length (strands st)" "y \<in> set (strands st ! j)"
      unfolding new_index_def by blast+
    then show ?thesis using k(4) by (cases "j = k") auto
  qed
qed

lemma grow_step_new_index:
  assumes gs: "grow_step rows cols seeds st = Inr (seeds', st')" and ni: "new_index D st"
  shows "new_index D st'"
proof -
  from gs obtain x s1 g1 where rp: "randpop (rand st) seeds = Inr (x, s1, g1)"
    by (auto simp: grow_step_def split: sum.splits)
  let ?neighs = "good_neighbors rows cols (strandi st) x"
  show ?thesis
  proof (cases "?neighs = []")
    case True
    with gs rp have "st' = st\<lparr>rand := g1\<rparr>"
      by (auto simp: grow_step_def split: if_splits)
    with ni show ?thesis by (simp add: new_index_def)
  next
    case False
    obtain k g2 where rb: "randbelow (length ?neighs) g1 = (k, g2)"
      by (cases "randbelow (length ?neighs) g1")
    from gs rp False rb have att: "attach x (?neighs ! k) (st\<lparr>rand := g2\<rparr>) = Inr st'"
      by (auto simp: grow_step_def Let_def split: if_splits sum.splits)
    have "new_index D (st\<lparr>rand := g2\<rparr>)" using ni by (simp add: new_index_def)
    from attach_new_index[OF att this] show ?thesis .
  qed
qed

lemma grow_new_index:
  "grow rows cols seeds st = Inr st' \<Longrightarrow> new_index D st \<Longrightarrow> new_index D st'"
proof (induction rows cols seeds st rule: grow.induct)
  case (1 rows cols seeds st)
  show ?case
  proof (cases "seeds = []")
    case True
    with "1.prems" show ?thesis by simp
  next
    case False
    with "1.prems" obtain seeds1 st1 where gs: "grow_step rows cols seeds st = Inr (seeds1, st1)"
      by (auto split: sum.splits)
    with "1.prems" False have g: "grow rows cols seeds1 st1 = Inr st'" by simp
    from "1.IH"[OF False gs refl g grow_step_new_index[OF gs "1.prems"(2)]] show ?thesis .
  qed
qed

lemma seed_all_new_index:
  assumes d: "distinct xs" and u: "\<And>x. x \<in> set xs \<Longrightarrow> strandi st x = None"
  shows "new_index (dom (strandi st)) (seed_all xs st)"
  unfolding new_index_def
proof (intro allI impI)
  fix y j assume y: "strandi (seed_all xs st) y = Some j" "y \<notin> dom (strandi st)"
  have "y \<in> set xs"
  proof (rule ccontr)
    assume "y \<notin> set xs"
    then have "strandi (seed_all xs st) y = strandi st y" by (rule seed_all_strandi_notin)
    with y show False by auto
  qed
  then obtain i where i: "i < length xs" "xs ! i = y" by (auto simp: in_set_conv_nth)
  from seed_all_strandi_nth[OF d i(1), of st] i(2) y(1) have j: "j = length (strands st) + i" by simp
  show "j < length (strands (seed_all xs st)) \<and> y \<in> set (strands (seed_all xs st) ! j)"
    using i j by (simp add: nth_append)
qed

lemma round_grow_new_index:
  assumes "round_grow s st = Inr st2"
  shows "new_index (dom (strandi st)) st2"
proof -
  obtain all_seeds g1 where sh:
    "shuffled (rand st) (filter (\<lambda>x. strandi st x = None) (cells (r s) (c s))) = (all_seeds, g1)"
    by (cases "shuffled (rand st) (filter (\<lambda>x. strandi st x = None) (cells (r s) (c s)))")
  let ?seeds = "slice_to (endcl s) all_seeds"
  let ?st1 = "seed_all ?seeds (st\<lparr>rand := g1\<rparr>)"
  from assms sh have g: "grow (r s) (c s) (?seeds @ ?seeds) ?st1 = Inr st2"
    by (simp add: round_grow_def Let_def)
  have "new_index (dom (strandi (st\<lparr>rand := g1\<rparr>))) ?st1"
    using round_seeds(1,3)[OF sh] by (intro seed_all_new_index) simp_all
  then have "new_index (dom (strandi st)) ?st1" by simp
  from grow_new_index[OF g this] show ?thesis .
qed


section \<open>Shuffle, sort and selection\<close>

lemma sort_desc_length:
  "sorted_wrt (\<lambda>a b. length b \<le> length a) (sort_key (\<lambda>strand. - int (length strand)) (xs :: 'a list list))"
proof -
  have "sorted (map (\<lambda>strand. - int (length strand)) (sort_key (\<lambda>strand. - int (length strand)) xs))"
    by (rule sorted_sort_key)
  then have "sorted_wrt (\<lambda>a b. - int (length a) \<le> - int (length b)) (sort_key (\<lambda>strand. - int (length strand)) xs)"
    by (simp add: sorted_map)
  then show ?thesis by (rule sorted_wrt_mono_rel[rotated]) simp
qed

lemma sort_desc_stable:
  "filter (\<lambda>strand. length strand = n) (sort_key (\<lambda>strand. - int (length strand)) (xs :: 'a list list))
     = filter (\<lambda>strand. length strand = n) xs"
proof -
  have "(\<lambda>strand :: 'a list. length strand = n) = (\<lambda>strand. - int (length strand) = - int n)"
    by auto
  then show ?thesis using sort_key_stable[of "\<lambda>strand :: 'a list. - int (length strand)" "- int n" xs]
    by simp
qed

lemma sorted_wrt_take_drop:
  assumes "sorted_wrt P xs" "a \<in> set (take n xs)" "b \<in> set (drop n xs)"
  shows "P a b"
proof -
  from assms(1) have "sorted_wrt P (take n xs @ drop n xs)" by simp
  with assms(2,3) show ?thesis unfolding sorted_wrt_append by blast
qed


section \<open>Running the code on the small grid\<close>

lemmas run_defs = build_round_def init_state_def shuffled_def shuffle_def randbelow_def
  slice_to_def grow_step_def randpop_def good_neighbors_def DIJS_def attach_def Let_def

lemma cells13: "cells 1 3 = [(0,0),(0,1),(0,2)]"
  by (simp add: cells_def upto_rec1)

lemma tiny_round: "build_round tiny (init_state 1 3 (sconst 0)) = Inr tiny_final"
  by (simp add: tiny_def run_defs cells13 numeral_2_eq_2 tiny_final_def)

lemma tiny_build: "build_strands tiny (init_state 1 3 (sconst 0)) = Some (Inr tiny_final)"
proof -
  have a: "int (card (dom (strandi (init_state 1 3 (sconst 0))))) < r tiny * c tiny"
    by (simp add: init_state_def tiny_def)
  have b: "\<not> int (card (dom (strandi tiny_final))) < r tiny * c tiny"
    by (simp add: tiny_final_def tiny_def card_insert_if)
  have "build_strands tiny (init_state 1 3 (sconst 0)) = build_strands tiny tiny_final"
    by (subst build_strands.simps) (simp add: a tiny_round)
  also have "\<dots> = Some (Inr tiny_final)"
    by (subst build_strands.simps) (simp add: b)
  finally show ?thesis .
qed

lemma tiny_degree_one: "degree_one (adj tiny_final) [(0, 1), (0, 0)] = Inr [(0, 1), (0, 0)]"
  by (simp add: degree_one_def tiny_final_def)

lemma tiny_walk: "walk (adj tiny_final) (0, 0) [(0, 1), (0, 1)] = Some (Inr [(0, 1), (0, 1), (0, 0)])"
proof -
  have "walk (adj tiny_final) (0, 0) [(0, 1), (0, 1)] = walk (adj tiny_final) (0, 0) [(0, 1), (0, 1), (0, 0)]"
    by (subst walk.simps) (simp add: tiny_final_def)
  also have "\<dots> = Some (Inr [(0, 1), (0, 1), (0, 0)])"
    by (subst walk.simps) simp
  finally show ?thesis .
qed

lemma tiny_cleanse:
  "cleanse tiny (adj tiny_final) [(0, 1), (0, 0)] (sconst 0) = Some (Inr ([(0, 1), (0, 0)], sconst 0))"
  by (simp add: cleanse_def tiny_degree_one tiny_walk randbelow_def tiny_def)

lemma tiny_try: "try_generating_paths tiny (sconst 0) = Some (Inr ([[(0, 1), (0, 0)]], sconst 0))"
proof -
  have b: "build_strands tiny (init_state (r tiny) (c tiny) (sconst 0)) = Some (Inr tiny_final)"
    using tiny_build by (simp add: tiny_def)
  have s: "strands tiny_final = [[(0, 1), (0, 0)]]" "rand tiny_final = sconst 0"
    by (simp_all add: tiny_final_def)
  have e: "endcl tiny = 2" by (simp add: tiny_def)
  show ?thesis
    unfolding try_generating_paths_def b
    by (simp add: s e shuffle_def shuffled_def tiny_cleanse)
qed

lemma tiny_acceptable: "acceptable tiny [[(0, 1), (0, 0)]] = Inr True"
  by (simp add: tiny_def)

lemma tiny_generate:
  "generate_paths quality tiny (sconst 0) = Some (Inr ([[(0, 1), (0, 0)]], sconst 0))"
proof -
  have "generate_acceptable_paths tiny (Suc 0) [] (sconst 0)
      = generate_acceptable_paths tiny 0 [[[(0, 1), (0, 0)]]] (sconst 0)"
    by (subst generate_acceptable_paths.simps) (simp add: tiny_try tiny_acceptable del: acceptable.simps)
  also have "\<dots> = Some (Inr ([[[(0, 1), (0, 0)]]], sconst 0))"
    by (subst generate_acceptable_paths.simps) simp
  finally show ?thesis by (simp add: generate_paths_def tiny_def)
qed

lemma tiny_cleanse_trimmed:
  "cleanse tiny (adj tiny_final) [(0, 1), (0, 0)] (1 ## sconst 0) = Some (Inr ([(0, 1)], sconst 0))"
  by (simp add: cleanse_def tiny_degree_one tiny_walk randbelow_def tiny_def)


subsection \<open>Other inputs\<close>

lemma cells14: "cells 1 4 = [(0,0),(0,1),(0,2),(0,3)]"
  by (simp add: cells_def upto_rec1)

lemma quad_round: "build_round quad (init_state 1 4 (sconst 0)) = Inr quad_final"
  by (simp add: quad_def run_defs cells14 quad_final_def)

lemma quad_build: "build_strands quad (init_state 1 4 (sconst 0)) = Some (Inr quad_final)"
proof -
  have a: "int (card (dom (strandi (init_state 1 4 (sconst 0))))) < r quad * c quad"
    by (simp add: init_state_def quad_def)
  have b: "\<not> int (card (dom (strandi quad_final))) < r quad * c quad"
    by (simp add: quad_final_def quad_def card_insert_if)
  have "build_strands quad (init_state 1 4 (sconst 0)) = build_strands quad quad_final"
    by (subst build_strands.simps) (simp add: a quad_round)
  also have "\<dots> = Some (Inr quad_final)"
    by (subst build_strands.simps) (simp add: b)
  finally show ?thesis .
qed

lemma picky_round: "build_round picky (init_state 1 3 (zeros8 g)) = Inr (tiny_left g)"
  by (simp add: picky_def run_defs cells13 tiny_left_def zeros8_def)

lemma shifted_round: "build_round tiny (init_state 1 3 (0 ## Suc 0 ## sconst 0)) = Inr tiny_shifted"
  by (simp add: tiny_def run_defs cells13 tiny_shifted_def)

lemma picky_build:
  "build_strands picky (init_state 1 3 (zeros8 g)) = Some (Inr (tiny_left g))"
proof -
  have a: "int (card (dom (strandi (init_state 1 3 (zeros8 g))))) < r picky * c picky"
    by (simp add: init_state_def picky_def)
  have b: "\<not> int (card (dom (strandi (tiny_left g)))) < r picky * c picky"
    by (simp add: tiny_left_def picky_def card_insert_if)
  have "build_strands picky (init_state 1 3 (zeros8 g)) = build_strands picky (tiny_left g)"
    by (subst build_strands.simps) (simp add: a picky_round)
  also have "\<dots> = Some (Inr (tiny_left g))"
    by (subst build_strands.simps) (simp add: b)
  finally show ?thesis .
qed

lemma shifted_build:
  "build_strands tiny (init_state 1 3 (0 ## Suc 0 ## sconst 0)) = Some (Inr tiny_shifted)"
proof -
  have a: "int (card (dom (strandi (init_state 1 3 (0 ## Suc 0 ## sconst 0))))) < r tiny * c tiny"
    by (simp add: init_state_def tiny_def)
  have b: "\<not> int (card (dom (strandi tiny_shifted))) < r tiny * c tiny"
    by (simp add: tiny_shifted_def tiny_def card_insert_if)
  have "build_strands tiny (init_state 1 3 (0 ## Suc 0 ## sconst 0)) = build_strands tiny tiny_shifted"
    by (subst build_strands.simps) (simp add: a shifted_round)
  also have "\<dots> = Some (Inr tiny_shifted)"
    by (subst build_strands.simps) (simp add: b)
  finally show ?thesis .
qed

lemma picky_cleanse_full:
  "cleanse picky (adj tiny_final) [(0, 1), (0, 0)] (0 ## g) = Some (Inr ([(0, 1), (0, 0)], g))"
  by (simp add: cleanse_def tiny_degree_one tiny_walk randbelow_def picky_def)

lemma picky_cleanse_trimmed:
  "cleanse picky (adj tiny_final) [(0, 1), (0, 0)] (Suc 0 ## 0 ## g) = Some (Inr ([(0, 1)], g))"
  by (simp add: cleanse_def tiny_degree_one tiny_walk randbelow_def picky_def)

lemma picky_try_full:
  "try_generating_paths picky (zeros8 (0 ## g)) = Some (Inr ([[(0, 1), (0, 0)]], g))"
proof -
  have b: "build_strands picky (init_state (r picky) (c picky) (zeros8 (0 ## g)))
      = Some (Inr (tiny_left (0 ## g)))"
    using picky_build[of "0 ## g"] by (simp add: picky_def)
  have s: "strands (tiny_left (0 ## g)) = [[(0, 1), (0, 0)]]"
    "rand (tiny_left (0 ## g)) = 0 ## g"
    "adj (tiny_left (0 ## g)) = adj tiny_final"
    by (simp_all add: tiny_final_def tiny_left_def)
  have e: "endcl picky = 2" by (simp add: picky_def)
  show ?thesis
    unfolding try_generating_paths_def b
    by (simp add: s e shuffle_def shuffled_def picky_cleanse_full)
qed

lemma picky_try_trimmed:
  "try_generating_paths picky (zeros8 (Suc 0 ## 0 ## g)) = Some (Inr ([[(0, 1)]], g))"
proof -
  have b: "build_strands picky (init_state (r picky) (c picky) (zeros8 (Suc 0 ## 0 ## g)))
      = Some (Inr (tiny_left (Suc 0 ## 0 ## g)))"
    using picky_build[of "Suc 0 ## 0 ## g"] by (simp add: picky_def)
  have s: "strands (tiny_left (Suc 0 ## 0 ## g)) = [[(0, 1), (0, 0)]]"
    "rand (tiny_left (Suc 0 ## 0 ## g)) = Suc 0 ## 0 ## g"
    "adj (tiny_left (Suc 0 ## 0 ## g)) = adj tiny_final"
    by (simp_all add: tiny_final_def tiny_left_def)
  have e: "endcl picky = 2" by (simp add: picky_def)
  show ?thesis
    unfolding try_generating_paths_def b
    by (simp add: s e shuffle_def shuffled_def picky_cleanse_trimmed)
qed

lemma picky_acceptable:
  "acceptable picky [[(0, 1)]] = Inr False" "acceptable picky [[(0, 1), (0, 0)]] = Inr True"
  by (simp_all add: picky_def)

lemma picky_run_tries:
  "run_tries picky 2 two_runs = Some ([[[(0, 1)]], [[(0, 1), (0, 0)]]], sconst 0)"
proof -
  have "run_tries picky (Suc (Suc 0)) two_runs = Some ([[[(0, 1)]], [[(0, 1), (0, 0)]]], sconst 0)"
    unfolding two_runs_def by (simp add: picky_try_trimmed picky_try_full)
  then show ?thesis by (simp add: numeral_2_eq_2)
qed

lemma picky_generate:
  "generate_paths quality picky two_runs = Some (Inr ([[(0, 1), (0, 0)]], sconst 0))"
proof -
  have "generate_acceptable_paths picky (Suc 0) [] two_runs
      = generate_acceptable_paths picky (Suc 0) [] (zeros8 (0 ## sconst 0))"
    unfolding two_runs_def
    by (subst generate_acceptable_paths.simps)
       (simp add: picky_try_trimmed picky_acceptable del: acceptable.simps)
  also have "\<dots> = generate_acceptable_paths picky 0 [[[(0, 1), (0, 0)]]] (sconst 0)"
    by (subst generate_acceptable_paths.simps)
       (simp add: picky_try_full picky_acceptable del: acceptable.simps)
  also have "\<dots> = Some (Inr ([[[(0, 1), (0, 0)]]], sconst 0))"
    by (subst generate_acceptable_paths.simps) simp
  finally show ?thesis by (simp add: generate_paths_def picky_def)
qed

lemma quad_degree_one:
  "degree_one (adj quad_final) [(0, 2), (0, 3)] = Inr [(0, 2), (0, 3)]"
  "degree_one (adj quad_final) [(0, 1), (0, 0)] = Inr [(0, 1), (0, 0)]"
  by (simp_all add: degree_one_def quad_final_def)

lemma quad_walk:
  "walk (adj quad_final) (0, 3) [(0, 2), (0, 2)] = Some (Inr [(0, 2), (0, 2), (0, 3)])"
  "walk (adj quad_final) (0, 0) [(0, 1), (0, 1)] = Some (Inr [(0, 1), (0, 1), (0, 0)])"
proof -
  have "walk (adj quad_final) (0, 3) [(0, 2), (0, 2)] = walk (adj quad_final) (0, 3) [(0, 2), (0, 2), (0, 3)]"
    by (subst walk.simps) (simp add: quad_final_def)
  also have "\<dots> = Some (Inr [(0, 2), (0, 2), (0, 3)])"
    by (subst walk.simps) simp
  finally show "walk (adj quad_final) (0, 3) [(0, 2), (0, 2)] = Some (Inr [(0, 2), (0, 2), (0, 3)])" .
  have "walk (adj quad_final) (0, 0) [(0, 1), (0, 1)] = walk (adj quad_final) (0, 0) [(0, 1), (0, 1), (0, 0)]"
    by (subst walk.simps) (simp add: quad_final_def)
  also have "\<dots> = Some (Inr [(0, 1), (0, 1), (0, 0)])"
    by (subst walk.simps) simp
  finally show "walk (adj quad_final) (0, 0) [(0, 1), (0, 1)] = Some (Inr [(0, 1), (0, 1), (0, 0)])" .
qed

lemma quad_cleanse:
  "cleanse quad (adj quad_final) [(0, 2), (0, 3)] (sconst 0) = Some (Inr ([(0, 2), (0, 3)], sconst 0))"
  "cleanse quad (adj quad_final) [(0, 1), (0, 0)] (sconst 0) = Some (Inr ([(0, 1), (0, 0)], sconst 0))"
  by (simp_all add: cleanse_def quad_degree_one quad_walk randbelow_def quad_def)

lemma quad_shuffle_strands:
  "shuffle [[(0 :: int, 1 :: int), (0, 0)], [(0, 2), (0, 3)]] (sconst 0)
     = ([[(0, 2), (0, 3)], [(0, 1), (0, 0)]], sconst 0)"
  by (simp add: shuffle_def randbelow_def)

lemma quad_shuffle_paths:
  "shuffle [[(0 :: int, 2 :: int), (0, 3)], [(0, 1), (0, 0)]] (sconst 0)
     = ([[(0, 1), (0, 0)], [(0, 2), (0, 3)]], sconst 0)"
  by (simp add: shuffle_def randbelow_def)

lemma quad_try:
  "try_generating_paths quad (sconst 0) = Some (Inr ([[(0, 1), (0, 0)], [(0, 2), (0, 3)]], sconst 0))"
proof -
  have b: "build_strands quad (init_state (r quad) (c quad) (sconst 0)) = Some (Inr quad_final)"
    using quad_build by (simp add: quad_def)
  have s: "strands quad_final = [[(0, 1), (0, 0)], [(0, 2), (0, 3)]]" "rand quad_final = sconst 0"
    by (simp_all add: quad_final_def)
  have e: "endcl quad = 2" by (simp add: quad_def)
  show ?thesis
    unfolding try_generating_paths_def b
    by (simp add: s e quad_shuffle_strands shuffled_def quad_shuffle_paths quad_cleanse)
qed

lemma quad_acceptable: "acceptable quad [[(0, 1), (0, 0)], [(0, 2), (0, 3)]] = Inr True"
  by (simp add: quad_def)

lemma quad_generate:
  "generate_paths quality quad (sconst 0) = Some (Inr ([[(0, 1), (0, 0)], [(0, 2), (0, 3)]], sconst 0))"
proof -
  have "generate_acceptable_paths quad (Suc 0) [] (sconst 0)
      = generate_acceptable_paths quad 0 [[[(0, 1), (0, 0)], [(0, 2), (0, 3)]]] (sconst 0)"
    by (subst generate_acceptable_paths.simps)
       (simp add: quad_try quad_acceptable del: acceptable.simps)
  also have "\<dots> = Some (Inr ([[[(0, 1), (0, 0)], [(0, 2), (0, 3)]]], sconst 0))"
    by (subst generate_acceptable_paths.simps) simp
  finally show ?thesis by (simp add: generate_paths_def quad_def)
qed

lemma shifted_round_grow:
  "round_grow tiny (init_state 1 3 (0 ## Suc 0 ## sconst 0)) = Inr tiny_grown"
  by (simp add: round_grow_def tiny_def init_state_def shuffled_def shuffle_def randbelow_def
      slice_to_def grow_step_def randpop_def good_neighbors_def DIJS_def attach_def Let_def
      cells13 tiny_grown_def)


subsection \<open>An attempt with an empty path\<close>

lemma loose_round: "build_round loose (init_state 1 3 (zeros8 g)) = Inr (tiny_left g)"
  by (simp add: loose_def run_defs cells13 tiny_left_def zeros8_def)

lemma loose_build:
  "build_strands loose (init_state 1 3 (zeros8 g)) = Some (Inr (tiny_left g))"
proof -
  have a: "int (card (dom (strandi (init_state 1 3 (zeros8 g))))) < r loose * c loose"
    by (simp add: init_state_def loose_def)
  have b: "\<not> int (card (dom (strandi (tiny_left g)))) < r loose * c loose"
    by (simp add: tiny_left_def loose_def card_insert_if)
  have "build_strands loose (init_state 1 3 (zeros8 g)) = build_strands loose (tiny_left g)"
    by (subst build_strands.simps) (simp add: a loose_round)
  also have "\<dots> = Some (Inr (tiny_left g))"
    by (subst build_strands.simps) (simp add: b)
  finally show ?thesis .
qed

lemma loose_cleanse:
  "cleanse loose (adj tiny_final) [(0, 1), (0, 0)] (2 ## 0 ## 0 ## g) = Some (Inr ([], g))"
  by (simp add: cleanse_def tiny_degree_one tiny_walk randbelow_def loose_def numeral_2_eq_2)

lemma loose_try:
  "try_generating_paths loose (zeros8 (2 ## 0 ## 0 ## g)) = Some (Inr ([[]], g))"
proof -
  have b: "build_strands loose (init_state (r loose) (c loose) (zeros8 (2 ## 0 ## 0 ## g)))
      = Some (Inr (tiny_left (2 ## 0 ## 0 ## g)))"
    using loose_build[of "2 ## 0 ## 0 ## g"] by (simp add: loose_def)
  have s: "strands (tiny_left (2 ## 0 ## 0 ## g)) = [[(0, 1), (0, 0)]]"
    "rand (tiny_left (2 ## 0 ## 0 ## g)) = 2 ## 0 ## 0 ## g"
    "adj (tiny_left (2 ## 0 ## 0 ## g)) = adj tiny_final"
    by (simp_all add: tiny_final_def tiny_left_def)
  have e: "endcl loose = 2" by (simp add: loose_def)
  show ?thesis
    unfolding try_generating_paths_def b
    by (simp add: s e shuffle_def shuffled_def loose_cleanse)
qed

lemma loose_acceptable:
  "acceptable loose [[]] = Inl IndexError" "acceptable loose [[], [(0, 0)]] = Inl IndexError"
  by (simp_all add: loose_def)

lemma loose_generate:
  "generate_paths quality loose empty_run = Some (Inl IndexError)"
proof -
  have "generate_acceptable_paths loose (Suc 0) [] empty_run = Some (Inl IndexError)"
    unfolding empty_run_def
    by (subst generate_acceptable_paths.simps)
       (simp add: loose_try loose_acceptable del: acceptable.simps)
  then show ?thesis by (simp add: generate_paths_def loose_def)
qed


section \<open>The draws that a run consumes\<close>

text \<open>
  Every function that takes the generator reads it only by drawing from it: when
  it returns it has made some number \<open>k\<close> of draws, and from any generator that
  delivers the same \<open>k\<close> values it returns the same result and leaves that generator
  \<open>k\<close> draws further on.
\<close>

lemma stake_add_eq:
  "stake (a + b) h = stake (a + b) g \<longleftrightarrow>
     stake a h = stake a g \<and> stake b (sdrop a h) = stake b (sdrop a g)"
proof -
  have "stake (a + b) h = stake (a + b) g \<longleftrightarrow>
      stake a h @ stake b (sdrop a h) = stake a g @ stake b (sdrop a g)"
    by simp
  also have "\<dots> \<longleftrightarrow> stake a h = stake a g \<and> stake b (sdrop a h) = stake b (sdrop a g)"
    by (simp del: stake_add)
  finally show ?thesis .
qed

lemma reseat_simps [simp]:
  "reseat k h (Inl e) = Inl e" "reseat k h (Inr (x, g)) = Inr (x, sdrop k h)"
  by (simp_all add: reseat_def)

lemma reseat_state_simps [simp]:
  "reseat_state k h (Inl e) = Inl e" "reseat_state k h (Inr st) = Inr (st\<lparr>rand := sdrop k h\<rparr>)"
  by (simp_all add: reseat_state_def)

lemma shuffle_from_draws:
  "stake i h = stake i g \<Longrightarrow> shuffle_from i xs h = (fst (shuffle_from i xs g), sdrop i h)"
proof (induction i arbitrary: xs g h)
  case 0
  then show ?case by simp
next
  case (Suc i)
  from Suc.prems have hd: "shd h = shd g" and tl: "stake i (stl h) = stake i (stl g)" by simp_all
  show ?case using Suc.IH[OF tl] by (simp add: randbelow_def hd)
qed

lemma shuffle_draws:
  "stake (length xs - 1) h = stake (length xs - 1) g \<Longrightarrow>
     shuffle xs h = (fst (shuffle xs g), sdrop (length xs - 1) h)"
  unfolding shuffle_def by (rule shuffle_from_draws)

lemma attach_rand:
  "attach x n (st\<lparr>rand := h\<rparr>) = map_sum id (\<lambda>st'. st'\<lparr>rand := h\<rparr>) (attach x n st)"
  by (simp add: attach_def Let_def split: option.splits)

lemma grow_step_draws:
  "\<exists>k. \<forall>h. stake k h = stake k (rand st) \<longrightarrow>
     grow_step rows cols seeds (st\<lparr>rand := h\<rparr>)
       = map_sum id (\<lambda>(seeds', st'). (seeds', st'\<lparr>rand := sdrop k h\<rparr>)) (grow_step rows cols seeds st)"
proof (cases "seeds = []")
  case True
  then show ?thesis by (simp add: grow_step_def randpop_def)
next
  case False
  define x where "x = seeds ! (shd (rand st) mod length seeds)"
  define neighs where "neighs = good_neighbors rows cols (strandi st) x"
  show ?thesis
  proof (cases "strandi st x = None \<or> neighs = []")
    case True
    have "\<forall>h. stake (Suc 0) h = stake (Suc 0) (rand st) \<longrightarrow>
       grow_step rows cols seeds (st\<lparr>rand := h\<rparr>)
         = map_sum id (\<lambda>(seeds', st'). (seeds', st'\<lparr>rand := sdrop (Suc 0) h\<rparr>))
             (grow_step rows cols seeds st)"
      using False True
      by (auto simp: grow_step_def randpop_def randbelow_def Let_def x_def neighs_def)
    then show ?thesis by blast
  next
    case ok: False
    define n where "n = neighs ! (shd (stl (rand st)) mod length neighs)"
    have "\<forall>h. stake (Suc (Suc 0)) h = stake (Suc (Suc 0)) (rand st) \<longrightarrow>
       grow_step rows cols seeds (st\<lparr>rand := h\<rparr>)
         = map_sum id (\<lambda>(seeds', st'). (seeds', st'\<lparr>rand := sdrop (Suc (Suc 0)) h\<rparr>))
             (grow_step rows cols seeds st)"
      using False ok
      by (cases "attach x n st")
         (auto simp: grow_step_def randpop_def randbelow_def Let_def x_def neighs_def n_def attach_rand)
    then show ?thesis by blast
  qed
qed

lemma grow_draws:
  "\<exists>k. \<forall>h. stake k h = stake k (rand st) \<longrightarrow>
     grow rows cols seeds (st\<lparr>rand := h\<rparr>) = reseat_state k h (grow rows cols seeds st)"
proof (induction rows cols seeds st rule: grow.induct)
  case (1 rows cols seeds st)
  show ?case
  proof (cases "seeds = []")
    case True
    have "\<forall>h. stake 0 h = stake 0 (rand st) \<longrightarrow>
        grow rows cols seeds (st\<lparr>rand := h\<rparr>) = reseat_state 0 h (grow rows cols seeds st)"
      using True by simp
    then show ?thesis by blast
  next
    case False
    from grow_step_draws[of st rows cols seeds] obtain k1 where
      k1: "\<And>h. stake k1 h = stake k1 (rand st) \<Longrightarrow>
        grow_step rows cols seeds (st\<lparr>rand := h\<rparr>)
          = map_sum id (\<lambda>(seeds', st'). (seeds', st'\<lparr>rand := sdrop k1 h\<rparr>))
              (grow_step rows cols seeds st)"
      by blast
    show ?thesis
    proof (cases "grow_step rows cols seeds st")
      case (Inl e)
      have "\<forall>h. stake k1 h = stake k1 (rand st) \<longrightarrow>
          grow rows cols seeds (st\<lparr>rand := h\<rparr>) = reseat_state k1 h (grow rows cols seeds st)"
        using False Inl k1 by simp
      then show ?thesis by blast
    next
      case (Inr p)
      obtain seeds' st' where p: "p = (seeds', st')" by (cases p)
      from k1[of "rand st"] Inr p have r': "rand st' = sdrop k1 (rand st)"
        by (cases st') simp
      from "1.IH"[OF False Inr p[symmetric]] obtain k2 where
        k2: "\<And>h. stake k2 h = stake k2 (rand st') \<Longrightarrow>
          grow rows cols seeds' (st'\<lparr>rand := h\<rparr>) = reseat_state k2 h (grow rows cols seeds' st')"
        by blast
      have "\<forall>h. stake (k1 + k2) h = stake (k1 + k2) (rand st) \<longrightarrow>
          grow rows cols seeds (st\<lparr>rand := h\<rparr>) = reseat_state (k1 + k2) h (grow rows cols seeds st)"
      proof (intro allI impI)
        fix h assume "stake (k1 + k2) h = stake (k1 + k2) (rand st)"
        then have a: "stake k1 h = stake k1 (rand st)"
          and b: "stake k2 (sdrop k1 h) = stake k2 (rand st')"
          by (simp_all add: stake_add_eq r')
        have "grow rows cols seeds (st\<lparr>rand := h\<rparr>) = grow rows cols seeds' (st'\<lparr>rand := sdrop k1 h\<rparr>)"
          using False k1[OF a] Inr p by simp
        also have "\<dots> = reseat_state k2 (sdrop k1 h) (grow rows cols seeds' st')"
          by (rule k2[OF b])
        also have "\<dots> = reseat_state (k1 + k2) h (grow rows cols seeds st)"
          using False Inr p by (simp add: reseat_state_def)
        finally show "grow rows cols seeds (st\<lparr>rand := h\<rparr>)
            = reseat_state (k1 + k2) h (grow rows cols seeds st)" .
      qed
      then show ?thesis by blast
    qed
  qed
qed

lemma seed_all_rand_update: "seed_all xs (st\<lparr>rand := h\<rparr>) = (seed_all xs st)\<lparr>rand := h\<rparr>"
proof (induction xs arbitrary: st)
  case Nil
  show ?case by simp
next
  case (Cons a xs)
  have "seed_all (a # xs) (st\<lparr>rand := h\<rparr>)
      = seed_all xs ((st\<lparr>strandi := (strandi st)(a \<mapsto> length (strands st)),
                        strands := strands st @ [[a]]\<rparr>)\<lparr>rand := h\<rparr>)"
    by (cases st) simp
  then show ?case by (simp add: Cons.IH)
qed

lemma build_round_draws:
  "\<exists>k. \<forall>h. stake k h = stake k (rand st) \<longrightarrow>
     build_round s (st\<lparr>rand := h\<rparr>) = reseat_state k h (build_round s st)"
proof -
  define F where "F = filter (\<lambda>x. strandi st x = None) (cells (r s) (c s))"
  define m where "m = length F - 1"
  define all_seeds where "all_seeds = fst (shuffle F (rand st))"
  define seeds where "seeds = slice_to (endcl s) all_seeds"
  define st1 where "st1 = seed_all seeds (st\<lparr>rand := sdrop m (rand st)\<rparr>)"
  have sh: "shuffle F h = (all_seeds, sdrop m h)" if "stake m h = stake m (rand st)" for h
    using shuffle_draws[of F h "rand st"] that by (simp add: m_def all_seeds_def)
  have r1: "rand st1 = sdrop m (rand st)" by (simp add: st1_def)
  from grow_draws[of st1 "r s" "c s" "seeds @ seeds"] obtain k2 where
    k2: "\<And>h. stake k2 h = stake k2 (rand st1) \<Longrightarrow>
      grow (r s) (c s) (seeds @ seeds) (st1\<lparr>rand := h\<rparr>)
        = reseat_state k2 h (grow (r s) (c s) (seeds @ seeds) st1)"
    by blast
  have base: "build_round s st =
      (case grow (r s) (c s) (seeds @ seeds) st1 of Inl e \<Rightarrow> Inl e
       | Inr st2 \<Rightarrow> Inr (st2\<lparr>strands := filter (\<lambda>strand. length strand > 1) (strands st2)\<rparr>))"
    using sh[of "rand st"]
    by (simp add: build_round_def shuffled_def F_def[symmetric] Let_def seeds_def st1_def
        del: grow.simps)
  have "\<forall>h. stake (m + k2) h = stake (m + k2) (rand st) \<longrightarrow>
     build_round s (st\<lparr>rand := h\<rparr>) = reseat_state (m + k2) h (build_round s st)"
  proof (intro allI impI)
    fix h assume "stake (m + k2) h = stake (m + k2) (rand st)"
    then have a: "stake m h = stake m (rand st)"
      and b: "stake k2 (sdrop m h) = stake k2 (rand st1)"
      by (simp_all add: stake_add_eq r1)
    have "build_round s (st\<lparr>rand := h\<rparr>) =
      (case grow (r s) (c s) (seeds @ seeds) (st1\<lparr>rand := sdrop m h\<rparr>) of Inl e \<Rightarrow> Inl e
       | Inr st2 \<Rightarrow> Inr (st2\<lparr>strands := filter (\<lambda>strand. length strand > 1) (strands st2)\<rparr>))"
      using sh[OF a]
      by (simp add: build_round_def shuffled_def F_def[symmetric] Let_def seeds_def st1_def
          seed_all_rand_update del: grow.simps)
    also have "\<dots> = reseat_state (m + k2) h (build_round s st)"
      unfolding k2[OF b] base
      by (cases "grow (r s) (c s) (seeds @ seeds) st1") (simp_all del: grow.simps)
    finally show "build_round s (st\<lparr>rand := h\<rparr>) = reseat_state (m + k2) h (build_round s st)" .
  qed
  then show ?thesis by blast
qed

lemma build_strands_draws:
  assumes "build_strands s st = Some res"
  shows "\<exists>k. \<forall>h. stake k h = stake k (rand st) \<longrightarrow>
     build_strands s (st\<lparr>rand := h\<rparr>) = Some (reseat_state k h res)"
proof (rule build_strands.raw_induct[where P = "\<lambda>s st res.
     \<exists>k. \<forall>h. stake k h = stake k (rand st) \<longrightarrow>
       build_strands s (st\<lparr>rand := h\<rparr>) = Some (reseat_state k h res)", OF _ assms])
  fix bs s st res
  assume IH: "\<And>s st res. bs s st = Some res \<Longrightarrow>
      \<exists>k. \<forall>h. stake k h = stake k (rand st) \<longrightarrow>
        build_strands s (st\<lparr>rand := h\<rparr>) = Some (reseat_state k h res)"
    and eq: "(if int (card (dom (strandi st))) < r s * c s
        then case build_round s st of Inl e \<Rightarrow> Some (Inl e) | Inr st' \<Rightarrow> bs s st'
        else Some (Inr st)) = Some res"
  show "\<exists>k. \<forall>h. stake k h = stake k (rand st) \<longrightarrow>
        build_strands s (st\<lparr>rand := h\<rparr>) = Some (reseat_state k h res)"
  proof (cases "int (card (dom (strandi st))) < r s * c s")
    case False
    with eq have res: "res = Inr st" by simp
    have "\<forall>h. stake 0 h = stake 0 (rand st) \<longrightarrow>
        build_strands s (st\<lparr>rand := h\<rparr>) = Some (reseat_state 0 h res)"
      using False by (subst build_strands.simps) (simp add: res)
    then show ?thesis by blast
  next
    case True
    from build_round_draws[of st s] obtain k1 where
      k1: "\<And>h. stake k1 h = stake k1 (rand st) \<Longrightarrow>
        build_round s (st\<lparr>rand := h\<rparr>) = reseat_state k1 h (build_round s st)"
      by blast
    show ?thesis
    proof (cases "build_round s st")
      case (Inl e)
      with True eq have res: "res = Inl e" by simp
      have "\<forall>h. stake k1 h = stake k1 (rand st) \<longrightarrow>
          build_strands s (st\<lparr>rand := h\<rparr>) = Some (reseat_state k1 h res)"
        using True k1 Inl by (subst build_strands.simps) (simp add: res)
      then show ?thesis by blast
    next
      case (Inr st1)
      from k1[of "rand st"] Inr have r1: "rand st1 = sdrop k1 (rand st)"
        by (cases st1) simp
      from True eq Inr have "bs s st1 = Some res" by simp
      from IH[OF this] obtain k2 where
        k2: "\<And>h. stake k2 h = stake k2 (rand st1) \<Longrightarrow>
          build_strands s (st1\<lparr>rand := h\<rparr>) = Some (reseat_state k2 h res)"
        by blast
      have "\<forall>h. stake (k1 + k2) h = stake (k1 + k2) (rand st) \<longrightarrow>
          build_strands s (st\<lparr>rand := h\<rparr>) = Some (reseat_state (k1 + k2) h res)"
      proof (intro allI impI)
        fix h assume "stake (k1 + k2) h = stake (k1 + k2) (rand st)"
        then have a: "stake k1 h = stake k1 (rand st)"
          and b: "stake k2 (sdrop k1 h) = stake k2 (rand st1)"
          by (simp_all add: stake_add_eq r1)
        have "build_strands s (st\<lparr>rand := h\<rparr>) = build_strands s (st1\<lparr>rand := sdrop k1 h\<rparr>)"
          using True k1[OF a] Inr by (subst build_strands.simps) simp
        also have "\<dots> = Some (reseat_state k2 (sdrop k1 h) res)" by (rule k2[OF b])
        also have "\<dots> = Some (reseat_state (k1 + k2) h res)" by (simp add: reseat_state_def)
        finally show "build_strands s (st\<lparr>rand := h\<rparr>) = Some (reseat_state (k1 + k2) h res)" .
      qed
      then show ?thesis by blast
    qed
  qed
qed

lemma trim_draws:
  "stake n h = stake n g \<Longrightarrow> trim n seq h = reseat n h (trim n seq g)"
proof (induction n arbitrary: seq g h)
  case 0
  then show ?case by simp
next
  case (Suc n)
  from Suc.prems have hd: "shd h = shd g" and tl: "stake n (stl h) = stake n (stl g)" by simp_all
  show ?case using Suc.IH[OF tl] by (simp add: randbelow_def hd reseat_def)
qed

lemma reseat_add: "reseat k2 (sdrop k1 h) res = reseat (k1 + k2) h res"
  by (cases res) (auto simp: reseat_def)

lemma cleanse_end_draws:
  fixes seq :: "cell list" and s :: DifficultySettings
  defines "fin \<equiv> \<lambda>g. (let ct = min (int (length seq) - distl s) 2 in
               (case (if ct > 0 then (case randbelow (nat ct + 1) g of (t, g') \<Rightarrow> (int t, g'))
                      else (ct, g)) of
                  (ct, g1) \<Rightarrow>
                    (case trim (nat ct) seq g1 of Inl e \<Rightarrow> Some (Inl e)
                     | Inr (seq', g2) \<Rightarrow>
                         if seq' = [] then Some (Inl IndexError)
                         else Some (Inr (tl seq', g2)))))"
  shows "\<exists>k. \<forall>h. stake k h = stake k g \<longrightarrow> fin h = map_option (reseat k h) (fin g)"
proof (cases "0 < min (int (length seq) - distl s) 2")
  case False
  have "\<forall>h. stake 0 h = stake 0 g \<longrightarrow> fin h = map_option (reseat 0 h) (fin g)"
    using False by (simp add: fin_def Let_def)
  then show ?thesis by blast
next
  case True
  define t where "t = shd g mod (nat (min (int (length seq) - distl s) 2) + 1)"
  have unf: "fin g' = (case trim t seq (stl g') of Inl e \<Rightarrow> Some (Inl e)
                     | Inr (seq', g2) \<Rightarrow>
                         if seq' = [] then Some (Inl IndexError)
                         else Some (Inr (tl seq', g2)))" if "shd g' = shd g" for g'
    using True that by (simp add: fin_def Let_def randbelow_def t_def)
  have "\<forall>h. stake (Suc t) h = stake (Suc t) g \<longrightarrow> fin h = map_option (reseat (Suc t) h) (fin g)"
  proof (intro allI impI)
    fix h assume "stake (Suc t) h = stake (Suc t) g"
    then have hd: "shd h = shd g" and tl: "stake t (stl h) = stake t (stl g)" by simp_all
    from trim_draws[OF tl, of seq] have tr: "trim t seq (stl h) = reseat t (stl h) (trim t seq (stl g))" .
    show "fin h = map_option (reseat (Suc t) h) (fin g)"
      unfolding unf[OF hd] unf[OF refl] tr
      by (cases "trim t seq (stl g)") auto
  qed
  then show ?thesis by blast
qed

lemma cleanse_draws:
  "\<exists>k. \<forall>h. stake k h = stake k g \<longrightarrow>
     cleanse s A strand h = map_option (reseat k h) (cleanse s A strand g)"
proof -
  have const: ?thesis if "\<And>h. cleanse s A strand h = y" "y = None \<or> (\<exists>e. y = Some (Inl e))" for y
  proof -
    have "\<forall>h. stake 0 h = stake 0 g \<longrightarrow>
        cleanse s A strand h = map_option (reseat 0 h) (cleanse s A strand g)"
      using that by auto
    then show ?thesis by blast
  qed
  show ?thesis
  proof (cases "degree_one A strand")
    case (Inl e)
    then have "\<And>h. cleanse s A strand h = Some (Inl e)" by (simp add: cleanse_def)
    then show ?thesis by (rule const) simp
  next
    case (Inr ends)
    show ?thesis
    proof (cases "\<exists>scell ecell. ends = [scell, ecell]")
      case False
      then have "\<And>h. cleanse s A strand h = Some (Inl ValueError)"
        using Inr by (auto simp: cleanse_def split: list.splits)
      then show ?thesis by (rule const) simp
    next
      case True
      then obtain scell ecell where ends: "ends = [scell, ecell]" by blast
      show ?thesis
      proof (cases "walk A ecell [scell, scell]")
        case None
        then have "\<And>h. cleanse s A strand h = None" using Inr ends by (simp add: cleanse_def)
        then show ?thesis by (rule const) simp
      next
        case (Some w)
        show ?thesis
        proof (cases w)
          case (Inl e)
          then have "\<And>h. cleanse s A strand h = Some (Inl e)"
            using Inr ends Some by (simp add: cleanse_def)
          then show ?thesis by (rule const) simp
        next
          case seq: (Inr seq)
          show ?thesis
            using cleanse_end_draws[where seq = seq and s = s and g = g]
            by (simp add: cleanse_def Inr ends Some seq)
        qed
      qed
    qed
  qed
qed

lemma cleanse_all_draws:
  "\<exists>k. \<forall>h. stake k h = stake k g \<longrightarrow>
     cleanse_all s A ss h = map_option (reseat k h) (cleanse_all s A ss g)"
proof (induction ss arbitrary: g)
  case Nil
  have "\<forall>h. stake 0 h = stake 0 g \<longrightarrow>
     cleanse_all s A [] h = map_option (reseat 0 h) (cleanse_all s A [] g)"
    by simp
  then show ?case by blast
next
  case (Cons strand rest)
  from cleanse_draws[of g s A strand] obtain k1 where
    k1: "\<And>h. stake k1 h = stake k1 g \<Longrightarrow>
       cleanse s A strand h = map_option (reseat k1 h) (cleanse s A strand g)"
    by blast
  have fail: ?case if "cleanse s A strand g = y" "y = None \<or> (\<exists>e. y = Some (Inl e))" for y
  proof -
    have "\<forall>h. stake k1 h = stake k1 g \<longrightarrow>
       cleanse_all s A (strand # rest) h = map_option (reseat k1 h) (cleanse_all s A (strand # rest) g)"
    proof (intro allI impI)
      fix h assume "stake k1 h = stake k1 g"
      from k1[OF this] that
      show "cleanse_all s A (strand # rest) h
          = map_option (reseat k1 h) (cleanse_all s A (strand # rest) g)"
        by auto
    qed
    then show ?thesis by blast
  qed
  show ?case
  proof (cases "cleanse s A strand g")
    case None
    then show ?thesis by (rule fail) simp
  next
    case (Some y)
    show ?thesis
    proof (cases y)
      case (Inl e)
      with Some have "cleanse s A strand g = Some (Inl e)" by simp
      then show ?thesis by (rule fail) simp
    next
      case (Inr pg)
      obtain p g1 where "pg = (p, g1)" by (cases pg)
      with Some Inr have c: "cleanse s A strand g = Some (Inr (p, g1))" by simp
      from k1[of g] c have g1: "g1 = sdrop k1 g" by simp
      from Cons.IH[of g1] obtain k2 where
        k2: "\<And>h. stake k2 h = stake k2 g1 \<Longrightarrow>
          cleanse_all s A rest h = map_option (reseat k2 h) (cleanse_all s A rest g1)"
        by blast
      have "\<forall>h. stake (k1 + k2) h = stake (k1 + k2) g \<longrightarrow>
         cleanse_all s A (strand # rest) h
           = map_option (reseat (k1 + k2) h) (cleanse_all s A (strand # rest) g)"
      proof (intro allI impI)
        fix h assume "stake (k1 + k2) h = stake (k1 + k2) g"
        then have a: "stake k1 h = stake k1 g" and b: "stake k2 (sdrop k1 h) = stake k2 g1"
          by (simp_all add: stake_add_eq g1)
        from k1[OF a] c have ch: "cleanse s A strand h = Some (Inr (p, sdrop k1 h))" by simp
        show "cleanse_all s A (strand # rest) h
           = map_option (reseat (k1 + k2) h) (cleanse_all s A (strand # rest) g)"
          using k2[OF b]
          by (auto simp: ch c split: option.splits sum.splits)
      qed
      then show ?thesis by blast
    qed
  qed
qed

lemma init_state_rand: "init_state rows cols h = (init_state rows cols g)\<lparr>rand := h\<rparr>"
  by (simp add: init_state_def)

lemma rand_init_state: "rand (init_state rows cols g) = g"
  by (simp add: init_state_def)

lemma try_generating_paths_draws:
  assumes "try_generating_paths s g = Some res"
  shows "\<exists>k. \<forall>h. stake k h = stake k g \<longrightarrow> try_generating_paths s h = Some (reseat k h res)"
proof -
  let ?init = "init_state (r s) (c s)"
  from assms obtain bres where b: "build_strands s (?init g) = Some bres"
    by (cases "build_strands s (?init g)") (simp_all add: try_generating_paths_def)
  from build_strands_draws[OF b] obtain k1 where
    k1: "\<And>h. stake k1 h = stake k1 g \<Longrightarrow> build_strands s (?init h) = Some (reseat_state k1 h bres)"
    using init_state_rand[of "r s" "c s" _ g] by (metis rand_init_state)
  show ?thesis
  proof (cases bres)
    case (Inl e)
    with assms b have res: "res = Inl e" by (simp add: try_generating_paths_def)
    have "\<forall>h. stake k1 h = stake k1 g \<longrightarrow> try_generating_paths s h = Some (reseat k1 h res)"
      using k1 Inl res by (simp add: try_generating_paths_def)
    then show ?thesis by blast
  next
    case (Inr st)
    from k1[of g] b Inr have rst: "rand st = sdrop k1 g" by (cases st) simp
    define m where "m = length (strands st) - 1"
    define sh where "sh = fst (shuffle (strands st) (rand st))"
    define srt where "srt = take (nat (endcl s)) (sort_key (\<lambda>strand. - int (length strand)) sh)"
    have shf: "shuffle (strands st) h = (sh, sdrop m h)" if "stake m h = stake m (rand st)" for h
      using shuffle_draws[of "strands st" h "rand st"] that by (simp add: m_def sh_def)
    show ?thesis
    proof (cases "endcl s < 0")
      case True
      with assms b Inr have res: "res = Inl ValueError"
        by (simp add: try_generating_paths_def split: prod.splits)
      have "\<forall>h. stake k1 h = stake k1 g \<longrightarrow> try_generating_paths s h = Some (reseat k1 h res)"
        using k1 Inr res True by (simp add: try_generating_paths_def split: prod.splits)
      then show ?thesis by blast
    next
      case False
      from cleanse_all_draws[of "sdrop (k1 + m) g" s "adj st" srt] obtain k3 where
        k3: "\<And>h. stake k3 h = stake k3 (sdrop (k1 + m) g) \<Longrightarrow>
          cleanse_all s (adj st) srt h
            = map_option (reseat k3 h) (cleanse_all s (adj st) srt (sdrop (k1 + m) g))"
        by blast
      have unf: "try_generating_paths s h =
          (case cleanse_all s (adj st) srt (sdrop (k1 + m) h) of
                       None \<Rightarrow> None
                     | Some (Inl e) \<Rightarrow> Some (Inl e)
                     | Some (Inr (ps, g2)) \<Rightarrow> Some (Inr (shuffled g2 ps)))"
        if "stake (k1 + m) h = stake (k1 + m) g" for h
      proof -
        from that have a: "stake k1 h = stake k1 g" and b: "stake m (sdrop k1 h) = stake m (rand st)"
          by (simp_all add: stake_add_eq rst)
        show ?thesis
          using k1[OF a] Inr False shf[OF b]
          by (simp add: try_generating_paths_def Let_def srt_def)
      qed
      from assms unf[OF refl] obtain cres where
        cres: "cleanse_all s (adj st) srt (sdrop (k1 + m) g) = Some cres"
        by (cases "cleanse_all s (adj st) srt (sdrop (k1 + m) g)") simp_all
      show ?thesis
      proof (cases cres)
        case (Inl e)
        with assms unf[OF refl] cres have res: "res = Inl e" by simp
        have "\<forall>h. stake ((k1 + m) + k3) h = stake ((k1 + m) + k3) g \<longrightarrow>
            try_generating_paths s h = Some (reseat ((k1 + m) + k3) h res)"
        proof (intro allI impI)
          fix h assume "stake ((k1 + m) + k3) h = stake ((k1 + m) + k3) g"
          then have a: "stake (k1 + m) h = stake (k1 + m) g"
            and b: "stake k3 (sdrop (k1 + m) h) = stake k3 (sdrop (k1 + m) g)"
            by (simp_all only: stake_add_eq)
          show "try_generating_paths s h = Some (reseat ((k1 + m) + k3) h res)"
            unfolding unf[OF a] k3[OF b] cres by (simp add: Inl res)
        qed
        then show ?thesis by blast
      next
        case (Inr pg)
        obtain ps g2 where pg: "pg = (ps, g2)" by (cases pg)
        from k3[OF refl] cres Inr pg have g2: "g2 = sdrop ((k1 + m) + k3) g" by simp
        define m4 where "m4 = length ps - 1"
        define out where "out = fst (shuffle ps g2)"
        have shp: "shuffle ps h = (out, sdrop m4 h)" if "stake m4 h = stake m4 g2" for h
          using shuffle_draws[of ps h g2] that by (simp add: m4_def out_def)
        from assms unf[OF refl] cres Inr pg shp[OF refl] have res: "res = Inr (out, sdrop m4 g2)"
          by (simp add: shuffled_def)
        have "\<forall>h. stake (((k1 + m) + k3) + m4) h = stake (((k1 + m) + k3) + m4) g \<longrightarrow>
            try_generating_paths s h = Some (reseat (((k1 + m) + k3) + m4) h res)"
        proof (intro allI impI)
          fix h assume "stake (((k1 + m) + k3) + m4) h = stake (((k1 + m) + k3) + m4) g"
          then have a: "stake (k1 + m) h = stake (k1 + m) g"
            and b: "stake k3 (sdrop (k1 + m) h) = stake k3 (sdrop (k1 + m) g)"
            and d: "stake m4 (sdrop ((k1 + m) + k3) h) = stake m4 g2"
            by (simp_all only: stake_add_eq g2)
          show "try_generating_paths s h = Some (reseat (((k1 + m) + k3) + m4) h res)"
            unfolding unf[OF a] k3[OF b] cres
            using shp[OF d] by (simp add: Inr pg res shuffled_def)
        qed
        then show ?thesis by blast
      qed
    qed
  qed
qed

lemma generate_acceptable_paths_draws:
  assumes "generate_acceptable_paths s n acc g = Some res"
  shows "\<exists>k. \<forall>h. stake k h = stake k g \<longrightarrow>
     generate_acceptable_paths s n acc h = Some (reseat k h res)"
proof -
  let ?Q = "\<lambda>s n acc g (y :: error + cell list list list \<times> rng).
     \<exists>k. \<forall>h. stake k h = stake k g \<longrightarrow> generate_acceptable_paths s n acc h = Some (reseat k h y)"
  show ?thesis
  proof (rule generate_acceptable_paths.raw_induct[where P = ?Q, OF _ assms])
    fix gen s n acc g y
    assume IH: "\<And>s n acc g y. gen s n acc g = Some y \<Longrightarrow> ?Q s n acc g y"
      and eq: "(if n = 0 then Some (Inr (acc, g))
           else case try_generating_paths s g of None \<Rightarrow> None
                | Some (Inl e) \<Rightarrow> Some (Inl e)
                | Some (Inr (paths, g')) \<Rightarrow>
                    (case acceptable s paths of Inl e \<Rightarrow> Some (Inl e)
                     | Inr ok \<Rightarrow>
                         if ok then gen s (n - 1) (acc @ [paths]) g'
                         else gen s n acc g')) = Some y"
    show "?Q s n acc g y"
    proof (cases "n = 0")
      case True
      with eq have y: "y = Inr (acc, g)" by simp
      have "\<forall>h. stake 0 h = stake 0 g \<longrightarrow> generate_acceptable_paths s n acc h = Some (reseat 0 h y)"
        using True by (subst generate_acceptable_paths.simps) (simp add: y)
      then show ?thesis by blast
    next
      case False
      with eq obtain tres where t: "try_generating_paths s g = Some tres"
        by (cases "try_generating_paths s g") simp_all
      from try_generating_paths_draws[OF t] obtain k1 where
        k1: "\<And>h. stake k1 h = stake k1 g \<Longrightarrow> try_generating_paths s h = Some (reseat k1 h tres)"
        by blast
      have stop: "?Q s n acc g y" if "\<And>h. stake k1 h = stake k1 g \<Longrightarrow>
          generate_acceptable_paths s n acc h = Some (Inl e)" "y = Inl e" for e
        using that by (intro exI[of _ k1]) simp
      show ?thesis
      proof (cases tres)
        case (Inl e)
        with False eq t have y: "y = Inl e" by simp
        show ?thesis
        proof (rule stop[OF _ y])
          fix h assume "stake k1 h = stake k1 g"
          from k1[OF this] Inl False show "generate_acceptable_paths s n acc h = Some (Inl e)"
            by (subst generate_acceptable_paths.simps) simp
        qed
      next
        case (Inr pg)
        obtain paths g1 where pg: "pg = (paths, g1)" by (cases pg)
        from k1[OF refl] t Inr pg have g1: "g1 = sdrop k1 g" by simp
        have th: "try_generating_paths s h = Some (Inr (paths, sdrop k1 h))"
          if "stake k1 h = stake k1 g" for h
          using k1[OF that] Inr pg by simp
        show ?thesis
        proof (cases "acceptable s paths")
          case (Inl e)
          with False eq t Inr pg have y: "y = Inl e" by (simp del: acceptable.simps)
          show ?thesis
          proof (rule stop[OF _ y])
            fix h assume "stake k1 h = stake k1 g"
            from th[OF this] Inl False show "generate_acceptable_paths s n acc h = Some (Inl e)"
              by (subst generate_acceptable_paths.simps) (simp del: acceptable.simps)
          qed
        next
          case ok: (Inr ok)
          define n' acc' where "n' = (if ok then n - 1 else n)"
            and "acc' = (if ok then acc @ [paths] else acc)"
          from False eq t Inr pg ok have "gen s n' acc' g1 = Some y"
            by (simp add: n'_def acc'_def del: acceptable.simps split: if_splits)
          from IH[OF this] obtain k2 where
            k2: "\<And>h. stake k2 h = stake k2 g1 \<Longrightarrow>
              generate_acceptable_paths s n' acc' h = Some (reseat k2 h y)"
            by blast
          have "\<forall>h. stake (k1 + k2) h = stake (k1 + k2) g \<longrightarrow>
              generate_acceptable_paths s n acc h = Some (reseat (k1 + k2) h y)"
          proof (intro allI impI)
            fix h assume "stake (k1 + k2) h = stake (k1 + k2) g"
            then have a: "stake k1 h = stake k1 g" and b: "stake k2 (sdrop k1 h) = stake k2 g1"
              by (simp_all add: stake_add_eq g1)
            have "generate_acceptable_paths s n acc h
                = generate_acceptable_paths s n' acc' (sdrop k1 h)"
              using th[OF a] ok False
              by (subst generate_acceptable_paths.simps)
                 (simp add: n'_def acc'_def del: acceptable.simps)
            also have "\<dots> = Some (reseat k2 (sdrop k1 h) y)" by (rule k2[OF b])
            finally show "generate_acceptable_paths s n acc h = Some (reseat (k1 + k2) h y)"
              by (simp add: reseat_add)
          qed
          then show ?thesis by blast
        qed
      qed
    qed
  qed
qed

lemma generate_paths_draws:
  assumes "generate_paths quality s g = Some out"
  shows "\<exists>k. \<forall>h. stake k h = stake k g \<longrightarrow> generate_paths quality s h = Some (reseat k h out)"
proof (cases "attemptc s < 0")
  case True
  with assms have "out = Inl ValueError" by (simp add: generate_paths_def)
  with True have "\<forall>h. stake 0 h = stake 0 g \<longrightarrow> generate_paths quality s h = Some (reseat 0 h out)"
    by (simp add: generate_paths_def)
  then show ?thesis by blast
next
  case False
  with assms obtain res where
    ga: "generate_acceptable_paths s (nat (attemptc s)) [] g = Some res"
    by (cases "generate_acceptable_paths s (nat (attemptc s)) [] g") (simp_all add: generate_paths_def)
  from generate_acceptable_paths_draws[OF ga] obtain k where
    k: "\<And>h. stake k h = stake k g \<Longrightarrow>
      generate_acceptable_paths s (nat (attemptc s)) [] h = Some (reseat k h res)"
    by blast
  have "\<forall>h. stake k h = stake k g \<longrightarrow> generate_paths quality s h = Some (reseat k h out)"
  proof (intro allI impI)
    fix h assume "stake k h = stake k g"
    from k[OF this] assms ga False
    show "generate_paths quality s h = Some (reseat k h out)"
      by (cases res) (auto simp: generate_paths_def split: list.splits)
  qed
  then show ?thesis by blast
qed

text \<open>
  The set \<open>{*adj[seq[-1]]} - {seq[-2]}\<close> in the loop of \<open>cleanse\<close> is unpacked into one
  cell. In whatever order \<open>xs\<close> the members of the set are enumerated, the
  unpacking succeeds in the same cases and gives the same cell.
\<close>

lemma unpack_any_order:
  assumes "distinct xs" and "set xs = set ns - {prev}"
  shows "(case xs of [ccell] \<Rightarrow> Some ccell | _ \<Rightarrow> None)
       = (case remdups (filter (\<lambda>y. y \<noteq> prev) ns) of [ccell] \<Rightarrow> Some ccell | _ \<Rightarrow> None)"
proof -
  let ?ys = "remdups (filter (\<lambda>y. y \<noteq> prev) ns)"
  have s: "set ?ys = set xs" using assms(2) by auto
  have d: "distinct ?ys" by simp
  from s d assms(1) have len: "length ?ys = length xs"
    by (metis distinct_card)
  show ?thesis
  proof (cases xs)
    case Nil
    with len show ?thesis by simp
  next
    case (Cons x xs')
    show ?thesis
    proof (cases xs')
      case Nil
      with Cons len s obtain y where "?ys = [y]" "y = x"
        by (cases ?ys) (auto simp del: remdups_filter set_filter)
      with Cons Nil show ?thesis by simp
    next
      case (Cons x' xs'')
      with \<open>xs = x # xs'\<close> len obtain y y' ys'' where "?ys = y # y' # ys''"
        by (cases ?ys; cases "tl ?ys") auto
      with Cons \<open>xs = x # xs'\<close> show ?thesis by simp
    qed
  qed
qed


text \<open>
  So an iteration of the loop \<open>while seq[-1] != ecell\<close> that enumerates the set in the
  order \<open>xs\<close> does what \<open>walk\<close> does.
\<close>

lemma walk_any_order:
  assumes "last seq \<noteq> ecell" and "A (last seq) = Some ns"
    and "distinct xs" and "set xs = set ns - {last (butlast seq)}"
  shows "walk A ecell seq =
     (case xs of [ccell] \<Rightarrow> walk A ecell (seq @ [ccell]) | _ \<Rightarrow> Some (Inl ValueError))"
proof -
  have "(case remdups (filter (\<lambda>y. y \<noteq> last (butlast seq)) ns) of
           [ccell] \<Rightarrow> walk A ecell (seq @ [ccell]) | _ \<Rightarrow> Some (Inl ValueError))
      = (case xs of [ccell] \<Rightarrow> walk A ecell (seq @ [ccell]) | _ \<Rightarrow> Some (Inl ValueError))"
    using unpack_any_order[OF assms(3,4)]
    by (auto split: list.splits)
  with assms(1,2) show ?thesis by (subst walk.simps) simp
qed

section \<open>Claims\<close>

subsection \<open>C6: the strand-building loop terminates with every cell assigned\<close>

text \<open>
  Claim C6. For settings with \<open>r \<ge> 1\<close>, \<open>c \<ge> 1\<close> and \<open>endcl \<ge> 1\<close> the loop
  \<open>while len(strandi) < r * c\<close> of \<open>_try_generating_paths\<close> terminates without
  raising, and at its exit the keys of \<open>strandi\<close> are exactly the \<open>r * c\<close> cells
  of the grid. Every round that the run enters ends with strictly more assigned
  cells than it began with.
\<close>

theorem strand_loop_terminates_and_covers:
  assumes "1 \<le> r s" "1 \<le> c s" "1 \<le> endcl s"
  shows "(\<exists>st. build_strands s (init_state (r s) (c s) g) = Some (Inr st) \<and>
              dom (strandi st) = set (cells (r s) (c s)) \<and>
              int (card (dom (strandi st))) = r s * c s) \<and>
         (\<forall>st. loop_state s g st \<longrightarrow> int (card (dom (strandi st))) < r s * c s \<longrightarrow>
              (\<exists>st'. build_round s st = Inr st' \<and> dom (strandi st) \<subset> dom (strandi st')))"
proof (intro conjI allI impI)
  have rr: "0 \<le> r s" and cc: "0 \<le> c s" using assms by auto
  have ls0: "loop_state s g (init_state (r s) (c s) g)" by (rule loop_state.start)
  from build_strands_total[OF assms(3) rr ls0] obtain st where
    st: "build_strands s (init_state (r s) (c s) g) = Some (Inr st)" by blast
  from build_strands_partial[OF st ls0] have ls: "loop_state s g st"
    and full: "\<not> int (card (dom (strandi st))) < r s * c s" by auto
  from loop_state_inv[OF ls] have inv: "inv_state (r s) (c s) st" by simp
  from full_coverage[OF inv full rr cc] have d: "dom (strandi st) = set (cells (r s) (c s))" .
  have "int (card (dom (strandi st))) = r s * c s"
    unfolding d card_cells using rr cc by simp
  with st d show "\<exists>st. build_strands s (init_state (r s) (c s) g) = Some (Inr st) \<and>
              dom (strandi st) = set (cells (r s) (c s)) \<and>
              int (card (dom (strandi st))) = r s * c s" by blast
next
  fix st
  assume ls: "loop_state s g st" and lt: "int (card (dom (strandi st))) < r s * c s"
  have rr: "0 \<le> r s" using assms by auto
  from loop_state_inv[OF ls] have inv: "inv_state (r s) (c s) st" by simp
  from unassigned_exists[OF inv lt rr] build_round_inv[OF inv] assms(3)
  show "\<exists>st'. build_round s st = Inr st' \<and> dom (strandi st) \<subset> dom (strandi st')" by blast
qed

theorem strand_loop_terminates_and_covers_witness:
  "1 \<le> r tiny \<and> 1 \<le> c tiny \<and> 1 \<le> endcl tiny \<and>
   (\<exists>st. build_strands tiny (init_state 1 3 (sconst 0)) = Some (Inr st) \<and>
         dom (strandi st) = {(0, 0), (0, 1), (0, 2)} \<and> card (dom (strandi st)) = 3) \<and>
   (\<exists>st'. build_round tiny (init_state 1 3 (sconst 0)) = Inr st' \<and>
          dom (strandi (init_state 1 3 (sconst 0))) \<subset> dom (strandi st'))"
proof -
  have h: "1 \<le> r tiny" "1 \<le> c tiny" "1 \<le> endcl tiny" by (simp_all add: tiny_def)
  have ls: "loop_state tiny (sconst 0) (init_state 1 3 (sconst 0))"
    using loop_state.start[of tiny "sconst 0"] by (simp add: tiny_def)
  have lt: "int (card (dom (strandi (init_state 1 3 (sconst 0))))) < r tiny * c tiny"
    by (simp add: init_state_def tiny_def)
  have cl: "set (cells 1 3) = {(0, 0), (0, 1), (0, 2)}" by (simp add: cells_def upto_rec1)
  from strand_loop_terminates_and_covers[OF h, of "sconst 0"] ls lt cl h show ?thesis
    by (simp add: tiny_def)
qed

subsection \<open>C5: every strand is a simple path in the adjacency graph\<close>

text \<open>
  Claim C5. Every strand that the strand builder hands over has at least two
  cells; each of its cells has at most two neighbours in \<open>adj\<close>, all of them in the
  strand; exactly two of its cells have one neighbour (the list that \<open>cleanse\<close>
  destructures into \<open>scell\<close> and \<open>ecell\<close>); and the walk from \<open>scell\<close>, which always
  moves to the one neighbour that is not the previous cell, ends at \<open>ecell\<close> after
  visiting every cell of the strand exactly once.
\<close>

theorem strand_is_simple_path:
  assumes "build_strands s (init_state (r s) (c s) g) = Some (Inr st)"
    and "strand \<in> set (strands st)"
  shows "2 \<le> length strand \<and>
     (\<forall>x\<in>set strand. \<exists>ns. adj st x = Some ns \<and> length ns \<le> 2 \<and> set ns \<subseteq> set strand) \<and>
     (\<exists>a b w. degree_one (adj st) strand = Inr [a, b] \<and> a \<noteq> b \<and>
        walk (adj st) b [a, a] = Some (Inr (a # w)) \<and> hd w = a \<and> last w = b \<and>
        distinct w \<and> mset w = mset strand \<and> is_path (adj st) w)"
proof (intro conjI ballI)
  show "2 \<le> length strand" using final_strand(1)[OF assms] .
  from final_strand(4)[OF assms] obtain p where p: "mset p = mset strand" "is_path (adj st) p"
    "2 \<le> length p" by blast
  have sp: "set strand = set p" using p(1) by (metis set_mset_mset)
  {
    fix x assume "x \<in> set strand"
    then obtain k where k: "k < length p" "p ! k = x" using sp by (auto simp: in_set_conv_nth)
    from path_degree[OF p(2) k(1) p(3)] k(2) sp
    show "\<exists>ns. adj st x = Some ns \<and> length ns \<le> 2 \<and> set ns \<subseteq> set strand" by auto
  }
  from cleanse_path[OF p(2) p(3) p(1)[symmetric], of s g] obtain a b w where
    w: "degree_one (adj st) strand = Inr [a, b]" "a \<noteq> b"
      "walk (adj st) b [a, a] = Some (Inr (a # w))" "is_path (adj st) w" "mset w = mset strand"
      "hd w = a" "last w = b" by blast
  from w(4) have "distinct w" by (simp add: is_path_def)
  with w show "\<exists>a b w. degree_one (adj st) strand = Inr [a, b] \<and> a \<noteq> b \<and>
        walk (adj st) b [a, a] = Some (Inr (a # w)) \<and> hd w = a \<and> last w = b \<and>
        distinct w \<and> mset w = mset strand \<and> is_path (adj st) w" by blast
qed

theorem strand_is_simple_path_witness:
  "build_strands tiny (init_state (r tiny) (c tiny) (sconst 0)) = Some (Inr tiny_final) \<and>
   [(0, 1), (0, 0)] \<in> set (strands tiny_final) \<and>
   degree_one (adj tiny_final) [(0, 1), (0, 0)] = Inr [(0, 1), (0, 0)] \<and>
   walk (adj tiny_final) (0, 0) [(0, 1), (0, 1)] = Some (Inr [(0, 1), (0, 1), (0, 0)]) \<and>
   (\<exists>a b w. degree_one (adj tiny_final) [(0, 1), (0, 0)] = Inr [a, b] \<and> a \<noteq> b \<and>
        walk (adj tiny_final) b [a, a] = Some (Inr (a # w)) \<and> hd w = a \<and> last w = b \<and>
        distinct w \<and> mset w = mset [(0, 1), (0, 0)] \<and> is_path (adj tiny_final) w)"
proof -
  have b: "build_strands tiny (init_state (r tiny) (c tiny) (sconst 0)) = Some (Inr tiny_final)"
    using tiny_build by (simp add: tiny_def)
  have m: "[(0, 1), (0, 0)] \<in> set (strands tiny_final)" by (simp add: tiny_final_def)
  from strand_is_simple_path[OF b m] b m tiny_degree_one tiny_walk show ?thesis by blast
qed

subsection \<open>C3: what cleanse removes\<close>

text \<open>
  Claim C3, as amended. The claim puts the trim bound at \<open>min(L - distl, 2)\<close> and the
  returned path at \<open>L - t - 1\<close> cells. The sequence that \<open>cleanse\<close> walks starts as
  \<open>[scell, scell]\<close>, so it has \<open>L + 1\<close> entries for a strand of \<open>L\<close> cells, and the
  bound is taken from its length: the bound is \<open>min(L + 1 - distl, 2)\<close>. If it is
  positive the trim amount \<open>t\<close> is one draw from \<open>[0, bound]\<close>, else no unit is
  trimmed; each of the \<open>t\<close> units removes an entry from the front or from the back
  as one draw below 2 decides; the final removal from the front then takes the
  doubled start cell or, after a front trim, the next cell. The returned path is
  a contiguous stretch of the walk with exactly \<open>L - t\<close> cells. That the draws
  are uniform is a property of the generator and is not part of the statement.
\<close>

theorem cleanse_trims_walk:
  assumes "build_strands s (init_state (r s) (c s) g0) = Some (Inr st)"
    and "strand \<in> set (strands st)"
  shows "2 \<le> length strand \<and>
     (\<exists>a b w. degree_one (adj st) strand = Inr [a, b] \<and>
        walk (adj st) b [a, a] = Some (Inr (a # w)) \<and>
        length (a # w) = length strand + 1 \<and> mset w = mset strand \<and>
        (let L = length strand; t = trim_amount s L g; f = front_pops t (trim_rng s L g)
         in int t \<le> max 0 (trim_bound s L) \<and> f \<le> t \<and>
            cleanse s (adj st) strand g =
              Some (Inr (drop f (take (L - (t - f)) w), sdrop t (trim_rng s L g))) \<and>
            length (drop f (take (L - (t - f)) w)) = L - t))"
proof -
  have l: "2 \<le> length strand" using final_strand(1)[OF assms] .
  from final_strand(4)[OF assms] obtain p where p: "mset p = mset strand" "is_path (adj st) p"
    "2 \<le> length p" by blast
  define L where "L = length strand"
  define t where "t = trim_amount s L g"
  define f where "f = front_pops t (trim_rng s L g)"
  from cleanse_path[OF p(2) p(3) p(1)[symmetric], of s g] obtain a b w where
    w: "degree_one (adj st) strand = Inr [a, b]"
      "walk (adj st) b [a, a] = Some (Inr (a # w))" "mset w = mset strand"
      "cleanse s (adj st) strand g = Some (Inr (drop f (take (L - (t - f)) w), sdrop t (trim_rng s L g)))"
    unfolding L_def t_def f_def by blast
  have lw: "length w = L" using w(3) unfolding L_def by (metis size_mset)
  have t2: "t \<le> 2" and tb: "int t \<le> max 0 (trim_bound s L)"
    unfolding t_def by (rule trim_amount_le)+
  have fle: "f \<le> t" unfolding f_def by (rule front_pops_le)
  have len: "length (drop f (take (L - (t - f)) w)) = L - t"
    using lw t2 fle l unfolding L_def by simp
  show ?thesis
    using l w lw tb fle len unfolding Let_def L_def[symmetric] t_def[symmetric] f_def[symmetric]
    by (intro conjI exI[of _ a] exI[of _ b] exI[of _ w]) simp_all
qed

theorem cleanse_trims_walk_witness:
  "build_strands tiny (init_state (r tiny) (c tiny) (sconst 0)) = Some (Inr tiny_final) \<and>
   [(0, 1), (0, 0)] \<in> set (strands tiny_final) \<and>
   trim_bound tiny 2 = 2 \<and> trim_amount tiny 2 (1 ## sconst 0) = 1 \<and>
   front_pops 1 (trim_rng tiny 2 (1 ## sconst 0)) = 0 \<and>
   cleanse tiny (adj tiny_final) [(0, 1), (0, 0)] (1 ## sconst 0) = Some (Inr ([(0, 1)], sconst 0)) \<and>
   (\<exists>a b w. degree_one (adj tiny_final) [(0, 1), (0, 0)] = Inr [a, b] \<and>
        walk (adj tiny_final) b [a, a] = Some (Inr (a # w)) \<and>
        length (a # w) = 3 \<and> mset w = mset [(0, 1), (0, 0)] \<and>
        cleanse tiny (adj tiny_final) [(0, 1), (0, 0)] (1 ## sconst 0) =
          Some (Inr (drop 0 (take (2 - (1 - 0)) w), sconst 0)) \<and>
        length (drop 0 (take (2 - (1 - 0)) w)) = 2 - 1)"
proof -
  have b: "build_strands tiny (init_state (r tiny) (c tiny) (sconst 0)) = Some (Inr tiny_final)"
    using tiny_build by (simp add: tiny_def)
  have m: "[(0, 1), (0, 0)] \<in> set (strands tiny_final)" by (simp add: tiny_final_def)
  have tb: "trim_bound tiny 2 = 2" by (simp add: trim_bound_def tiny_def)
  have ta: "trim_amount tiny 2 (1 ## sconst 0) = 1" by (simp add: trim_amount_def tb)
  have tr: "trim_rng tiny 2 (1 ## sconst 0) = sconst 0" by (simp add: trim_rng_def tb)
  have fp: "front_pops 1 (sconst 0) = 0" by (simp add: front_pops_def)
  have len2: "length [(0 :: int, 1 :: int), (0, 0)] = 2" by simp
  note th = cleanse_trims_walk[OF b m, of "1 ## sconst 0", unfolded Let_def len2 ta tr fp]
  from th b m tb ta tr fp tiny_cleanse_trimmed
  show ?thesis by (simp add: Let_def)
qed

text \<open>
  The claim as written fails: a strand of two cells comes back as a path of two
  cells, and with \<open>distl = 2\<close>, where \<open>min(L - distl, 2) = 0\<close>, the trim amount is
  still drawn (the generator has advanced by one draw).
\<close>

theorem cleanse_length_counterexample:
  "build_strands tiny (init_state (r tiny) (c tiny) (sconst 0)) = Some (Inr tiny_final) \<and>
   [(0, 1), (0, 0)] \<in> set (strands tiny_final) \<and>
   cleanse tiny (adj tiny_final) [(0, 1), (0, 0)] (sconst 0) = Some (Inr ([(0, 1), (0, 0)], sconst 0)) \<and>
   \<not> (\<exists>t. length [(0 :: int, 1 :: int), (0, 0)] = length [(0 :: int, 1 :: int), (0, 0)] - t - 1) \<and>
   min (int (length [(0 :: int, 1 :: int), (0, 0)]) - distl (tiny\<lparr>distl := 2\<rparr>)) 2 = 0 \<and>
   cleanse (tiny\<lparr>distl := 2\<rparr>) (adj tiny_final) [(0, 1), (0, 0)] (0 ## sconst 1)
     = Some (Inr ([(0, 1), (0, 0)], sconst 1))"
proof -
  have b: "build_strands tiny (init_state (r tiny) (c tiny) (sconst 0)) = Some (Inr tiny_final)"
    using tiny_build by (simp add: tiny_def)
  have m: "[(0, 1), (0, 0)] \<in> set (strands tiny_final)" by (simp add: tiny_final_def)
  have c2: "cleanse (tiny\<lparr>distl := 2\<rparr>) (adj tiny_final) [(0, 1), (0, 0)] (0 ## sconst 1)
     = Some (Inr ([(0, 1), (0, 0)], sconst 1))"
    by (simp add: cleanse_def tiny_degree_one tiny_walk randbelow_def tiny_def)
  have n: "\<not> (\<exists>t. length [(0 :: int, 1 :: int), (0, 0)] = length [(0 :: int, 1 :: int), (0, 0)] - t - 1)"
  proof
    assume "\<exists>t. length [(0 :: int, 1 :: int), (0, 0)] = length [(0 :: int, 1 :: int), (0, 0)] - t - 1"
    then obtain t :: nat where "Suc (Suc 0) = Suc (Suc 0) - t - 1" by auto
    then show False by arith
  qed
  have d: "min (int (length [(0 :: int, 1 :: int), (0, 0)]) - distl (tiny\<lparr>distl := 2\<rparr>)) 2 = 0"
    by (simp add: tiny_def)
  from b m tiny_cleanse n d c2 show ?thesis by blast
qed

subsection \<open>C1: at most endcl paths, pairwise disjoint\<close>

text \<open>
  Claim C1. Every list of paths that \<open>generate_paths\<close> returns has at most
  \<open>settings.endcl\<close> paths, and no cell occurs twice in it: neither in two paths
  nor twice in one.
\<close>

theorem generate_paths_disjoint:
  assumes "generate_paths quality s g = Some (Inr (paths, g'))"
  shows "int (length paths) \<le> endcl s \<and> distinct (concat paths) \<and>
         (\<forall>i j. i < j \<longrightarrow> j < length paths \<longrightarrow> set (paths ! i) \<inter> set (paths ! j) = {})"
proof -
  from generate_paths_attempt[OF assms] obtain g1 g2 where
    t: "try_generating_paths s g1 = Some (Inr (paths, g2))" by blast
  from attempt_shape(1,2)[OF t] have a: "int (length paths) \<le> endcl s" "distinct (concat paths)" .
  then show ?thesis using distinct_concat_nth_disjoint[of paths] by blast
qed

theorem generate_paths_disjoint_witness:
  "generate_paths cell_count quad (sconst 0)
     = Some (Inr ([[(0, 1), (0, 0)], [(0, 2), (0, 3)]], sconst 0)) \<and>
   int (length [[(0 :: int, 1 :: int), (0, 0)], [(0, 2), (0, 3)]]) \<le> endcl quad \<and>
   distinct (concat [[(0 :: int, 1 :: int), (0, 0)], [(0, 2), (0, 3)]]) \<and>
   set ([[(0 :: int, 1 :: int), (0, 0)], [(0, 2), (0, 3)]] ! 0)
     \<inter> set ([[(0 :: int, 1 :: int), (0, 0)], [(0, 2), (0, 3)]] ! 1) = {}"
proof -
  note run = quad_generate[where quality = cell_count]
  note th = generate_paths_disjoint[OF run]
  from th have d: "\<forall>i j. i < j \<longrightarrow> j < length [[(0 :: int, 1 :: int), (0, 0)], [(0, 2), (0, 3)]] \<longrightarrow>
      set ([[(0 :: int, 1 :: int), (0, 0)], [(0, 2), (0, 3)]] ! i)
        \<inter> set ([[(0 :: int, 1 :: int), (0, 0)], [(0, 2), (0, 3)]] ! j) = {}" by blast
  have "set ([[(0 :: int, 1 :: int), (0, 0)], [(0, 2), (0, 3)]] ! 0)
     \<inter> set ([[(0 :: int, 1 :: int), (0, 0)], [(0, 2), (0, 3)]] ! 1) = {}"
    using d[rule_format, of 0 1] by simp
  with run th show ?thesis by blast
qed

subsection \<open>C10: every returned path is a path of the grid\<close>

text \<open>
  Claim C10. Every path that \<open>generate_paths\<close> returns consists of pairwise distinct
  cells with row in \<open>[0, r)\<close> and column in \<open>[0, c)\<close>, and each cell of it differs from
  the one before by one of the offsets in \<open>DIJS\<close>.
\<close>

theorem generate_paths_grid_paths:
  assumes "generate_paths quality s g = Some (Inr (paths, g'))"
  shows "\<forall>path\<in>set paths. distinct path \<and>
           (\<forall>x\<in>set path. 0 \<le> fst x \<and> fst x < r s \<and> 0 \<le> snd x \<and> snd x < c s) \<and>
           (\<forall>k. Suc k < length path \<longrightarrow>
              (\<exists>d\<in>set DIJS. path ! Suc k = (fst (path ! k) + fst d, snd (path ! k) + snd d)))"
proof
  fix path assume p: "path \<in> set paths"
  from generate_paths_attempt[OF assms] obtain g1 g2 where
    t: "try_generating_paths s g1 = Some (Inr (paths, g2))" by blast
  from attempt_shape(2)[OF t] p have d: "distinct path" by (auto simp: distinct_concat_iff)
  from attempt_shape(3)[OF t p] have g: "set path \<subseteq> set (cells (r s) (c s))"
    and sa: "successively adjacent path" by auto
  have "\<forall>x\<in>set path. 0 \<le> fst x \<and> fst x < r s \<and> 0 \<le> snd x \<and> snd x < c s"
    using g by (auto simp: set_cells)
  moreover have "\<exists>d\<in>set DIJS. path ! Suc k = (fst (path ! k) + fst d, snd (path ! k) + snd d)"
    if "Suc k < length path" for k
    using successively_nth[OF sa that] by (force simp: adjacent_def)
  ultimately show "distinct path \<and>
           (\<forall>x\<in>set path. 0 \<le> fst x \<and> fst x < r s \<and> 0 \<le> snd x \<and> snd x < c s) \<and>
           (\<forall>k. Suc k < length path \<longrightarrow>
              (\<exists>d\<in>set DIJS. path ! Suc k = (fst (path ! k) + fst d, snd (path ! k) + snd d)))"
    using d by blast
qed

theorem generate_paths_grid_paths_witness:
  "generate_paths cell_count quad (sconst 0)
     = Some (Inr ([[(0, 1), (0, 0)], [(0, 2), (0, 3)]], sconst 0)) \<and>
   [(0, 2), (0, 3)] \<in> set [[(0 :: int, 1 :: int), (0, 0)], [(0, 2), (0, 3)]] \<and>
   distinct [(0 :: int, 2 :: int), (0, 3)] \<and>
   0 \<le> fst (0 :: int, 3 :: int) \<and> fst (0 :: int, 3 :: int) < r quad \<and>
   0 \<le> snd (0 :: int, 3 :: int) \<and> snd (0 :: int, 3 :: int) < c quad \<and>
   (\<exists>d\<in>set DIJS. [(0, 2), (0, 3)] ! Suc 0
        = (fst ([(0 :: int, 2 :: int), (0, 3)] ! 0) + fst d, snd ([(0 :: int, 2 :: int), (0, 3)] ! 0) + snd d))"
proof -
  note run = quad_generate[where quality = cell_count]
  note th = generate_paths_grid_paths[OF run]
  have m: "[(0, 2), (0, 3)] \<in> set [[(0 :: int, 1 :: int), (0, 0)], [(0, 2), (0, 3)]]" by simp
  from th[rule_format, OF m] have a: "distinct [(0 :: int, 2 :: int), (0, 3)]"
    and b: "\<forall>x\<in>set [(0 :: int, 2 :: int), (0, 3)]. 0 \<le> fst x \<and> fst x < r quad \<and> 0 \<le> snd x \<and> snd x < c quad"
    and c: "\<forall>k. Suc k < length [(0 :: int, 2 :: int), (0, 3)] \<longrightarrow>
              (\<exists>d\<in>set DIJS. [(0, 2), (0, 3)] ! Suc k
                 = (fst ([(0 :: int, 2 :: int), (0, 3)] ! k) + fst d, snd ([(0 :: int, 2 :: int), (0, 3)] ! k) + snd d))"
    by blast+
  from b have b': "0 \<le> fst (0 :: int, 3 :: int) \<and> fst (0 :: int, 3 :: int) < r quad \<and>
     0 \<le> snd (0 :: int, 3 :: int) \<and> snd (0 :: int, 3 :: int) < c quad" by simp
  from c[rule_format, of 0] have c': "\<exists>d\<in>set DIJS. [(0, 2), (0, 3)] ! Suc 0
        = (fst ([(0 :: int, 2 :: int), (0, 3)] ! 0) + fst d, snd ([(0 :: int, 2 :: int), (0, 3)] ! 0) + snd d)"
    by simp
  from run m a b' c' show ?thesis by blast
qed

subsection \<open>C4: acceptability\<close>

text \<open>
  Claim C4, as the code has it. For settings with \<open>pathl \<ge> 1\<close>, \<open>_acceptable\<close> returns
  \<open>True\<close> if every path of the attempt has at least \<open>pathl\<close> cells and its first and
  last cell are at Manhattan distance at least \<open>distl\<close>, and it returns \<open>False\<close>
  otherwise: a single path that fails rejects the attempt. For any settings, say
  that a path fails when it has no cell or misses one of the two limits. The
  result is \<open>True\<close> exactly when no path fails; it is \<open>False\<close> exactly when the first
  path that fails has a cell or is shorter than \<open>pathl\<close>; and the call raises, always
  \<open>IndexError\<close>, exactly when \<open>pathl \<le> 0\<close> and the first path that fails has no cell.
  Every attempt that the generator yields to the search meets both limits in all
  of its paths.
\<close>

theorem acceptable_iff_all_paths_ok:
  "(1 \<le> pathl s \<longrightarrow>
      acceptable s paths = Inr (\<forall>path\<in>set paths. pathl s \<le> int (length path) \<and>
         distl s \<le> dist (fst (hd path)) (snd (hd path)) (fst (last path)) (snd (last path)))) \<and>
   (acceptable s paths = Inr True \<longleftrightarrow>
      (\<forall>path\<in>set paths. pathl s \<le> int (length path) \<and> path \<noteq> [] \<and>
         distl s \<le> dist (fst (hd path)) (snd (hd path)) (fst (last path)) (snd (last path)))) \<and>
   (acceptable s paths = Inr False \<longleftrightarrow>
      (\<exists>pre bad rest. paths = pre @ bad # rest \<and> (\<forall>p\<in>set pre. path_ok s p) \<and>
         \<not> path_ok s bad \<and> (bad = [] \<longrightarrow> 0 < pathl s))) \<and>
   (acceptable s paths = Inl e \<longleftrightarrow>
      e = IndexError \<and> pathl s \<le> 0 \<and>
      (\<exists>pre rest. paths = pre @ [] # rest \<and> (\<forall>p\<in>set pre. path_ok s p))) \<and>
   (generate_acceptable_paths s n [] g = Some (Inr (attempts, g')) \<longrightarrow>
      (\<forall>a\<in>set attempts. acceptable s a = Inr True \<and> (\<forall>path\<in>set a. path_ok s path)))"
proof (intro conjI impI ballI)
  show "acceptable s paths = Inr True \<longleftrightarrow>
      (\<forall>path\<in>set paths. pathl s \<le> int (length path) \<and> path \<noteq> [] \<and>
         distl s \<le> dist (fst (hd path)) (snd (hd path)) (fst (last path)) (snd (last path)))"
    using acceptable_True_iff[of s paths] unfolding path_ok_def .
next
  assume "1 \<le> pathl s"
  then show "acceptable s paths = Inr (\<forall>path\<in>set paths. pathl s \<le> int (length path) \<and>
         distl s \<le> dist (fst (hd path)) (snd (hd path)) (fst (last path)) (snd (last path)))"
    by (rule acceptable_strict)
next
  show "acceptable s paths = Inr False \<longleftrightarrow>
      (\<exists>pre bad rest. paths = pre @ bad # rest \<and> (\<forall>p\<in>set pre. path_ok s p) \<and>
         \<not> path_ok s bad \<and> (bad = [] \<longrightarrow> 0 < pathl s))"
    by (rule acceptable_False_iff)
next
  show "acceptable s paths = Inl e \<longleftrightarrow>
      e = IndexError \<and> pathl s \<le> 0 \<and>
      (\<exists>pre rest. paths = pre @ [] # rest \<and> (\<forall>p\<in>set pre. path_ok s p))"
    by (rule acceptable_error_iff)
next
  fix a assume ga: "generate_acceptable_paths s n [] g = Some (Inr (attempts, g'))"
    and a: "a \<in> set attempts"
  from generate_acceptable_forward[OF ga] a have "accepted s a" by auto
  then show "acceptable s a = Inr True" by (simp add: accepted_def)
  then show "\<And>path. path \<in> set a \<Longrightarrow> path_ok s path" using acceptable_True_iff[of s a] by blast
qed

lemma picky_collect:
  "generate_acceptable_paths picky (Suc 0) [] two_runs = Some (Inr ([[[(0, 1), (0, 0)]]], sconst 0))"
proof -
  have "generate_acceptable_paths picky (Suc 0) [] two_runs
      = generate_acceptable_paths picky (Suc 0) [] (zeros8 (0 ## sconst 0))"
    unfolding two_runs_def
    by (subst generate_acceptable_paths.simps)
       (simp add: picky_try_trimmed picky_acceptable del: acceptable.simps)
  also have "\<dots> = generate_acceptable_paths picky 0 [[[(0, 1), (0, 0)]]] (sconst 0)"
    by (subst generate_acceptable_paths.simps)
       (simp add: picky_try_full picky_acceptable del: acceptable.simps)
  also have "\<dots> = Some (Inr ([[[(0, 1), (0, 0)]]], sconst 0))"
    by (subst generate_acceptable_paths.simps) simp
  finally show ?thesis .
qed

theorem acceptable_iff_all_paths_ok_witness:
  "1 \<le> pathl picky \<and>
   acceptable picky [[(0, 1), (0, 0)]] = Inr True \<and>
   acceptable picky [[(0, 1), (0, 0)], [(0, 1)]] = Inr False \<and>
   pathl loose \<le> 0 \<and>
   acceptable loose [[(0, 1), (0, 0)], [(0, 1)]] = Inr False \<and>
   acceptable loose [[(0, 1), (0, 0)], [], [(0, 1)]] = Inl IndexError \<and>
   generate_acceptable_paths picky (Suc 0) [] two_runs = Some (Inr ([[[(0, 1), (0, 0)]]], sconst 0)) \<and>
   path_ok picky [(0, 1), (0, 0)]"
proof -
  note th1 = acceptable_iff_all_paths_ok[of picky "[[(0, 1), (0, 0)], [(0, 1)]]" IndexError "Suc 0"
      two_runs "[[[(0, 1), (0, 0)]]]" "sconst 0"]
  note th2 = acceptable_iff_all_paths_ok[of loose "[[(0, 1), (0, 0)], [(0, 1)]]" IndexError "Suc 0"
      two_runs "[[[(0, 1), (0, 0)]]]" "sconst 0"]
  note th3 = acceptable_iff_all_paths_ok[of loose "[[(0, 1), (0, 0)], [], [(0, 1)]]" IndexError "Suc 0"
      two_runs "[[[(0, 1), (0, 0)]]]" "sconst 0"]
  have lim: "1 \<le> pathl picky" "pathl loose \<le> 0" by (simp_all add: picky_def loose_def)
  have okp: "path_ok loose [(0, 1), (0, 0)]" "\<not> path_ok loose [(0, 1)]"
    by (simp_all add: path_ok_def loose_def)
  from th1 lim(1) have "acceptable picky [[(0, 1), (0, 0)], [(0, 1)]]
      = Inr (\<forall>path\<in>set [[(0 :: int, 1 :: int), (0, 0)], [(0, 1)]]. pathl picky \<le> int (length path) \<and>
         distl picky \<le> dist (fst (hd path)) (snd (hd path)) (fst (last path)) (snd (last path)))"
    by blast
  then have rej: "acceptable picky [[(0, 1), (0, 0)], [(0, 1)]] = Inr False"
    by (simp add: picky_def del: acceptable.simps)
  have "[[(0 :: int, 1 :: int), (0, 0)], [(0, 1)]] = [[(0, 1), (0, 0)]] @ [(0, 1)] # [] \<and>
      (\<forall>p\<in>set [[(0 :: int, 1 :: int), (0, 0)]]. path_ok loose p) \<and>
      \<not> path_ok loose [(0, 1)] \<and> ([(0 :: int, 1 :: int)] = [] \<longrightarrow> 0 < pathl loose)"
    using okp by simp
  with th2 have rej2: "acceptable loose [[(0, 1), (0, 0)], [(0, 1)]] = Inr False" by blast
  have "[[(0 :: int, 1 :: int), (0, 0)], [], [(0, 1)]] = [[(0, 1), (0, 0)]] @ [] # [[(0, 1)]] \<and>
      (\<forall>p\<in>set [[(0 :: int, 1 :: int), (0, 0)]]. path_ok loose p)"
    using okp by simp
  with th3 lim(2) have err: "acceptable loose [[(0, 1), (0, 0)], [], [(0, 1)]] = Inl IndexError"
    by blast
  from th1 picky_collect have "\<forall>a\<in>set [[[(0 :: int, 1 :: int), (0, 0)]]].
      acceptable picky a = Inr True \<and> (\<forall>path\<in>set a. path_ok picky path)" by blast
  then have ok: "path_ok picky [(0, 1), (0, 0)]"
    "acceptable picky [[(0, 1), (0, 0)]] = Inr True" by (simp_all del: acceptable.simps)
  from lim rej rej2 err ok picky_collect show ?thesis by blast
qed

text \<open>
  The claim as first stated has no case for an exception. With \<open>pathl = 0\<close> the
  attempt that \<open>empty_run\<close> produces holds one path without cells; \<open>_acceptable\<close>
  neither accepts nor rejects it but raises, and so does \<open>generate_paths\<close>. An
  attempt in which a path at distance 0 follows the path without cells is not
  rejected either.
\<close>

theorem acceptable_raises_counterexample:
  "try_generating_paths loose empty_run = Some (Inr ([[]], sconst 0)) \<and>
   pathl loose \<le> int (length ([] :: cell list)) \<and>
   acceptable loose [[]] = Inl IndexError \<and>
   generate_paths cell_count loose empty_run = Some (Inl IndexError) \<and>
   dist 0 0 0 0 < distl loose \<and>
   acceptable loose [[], [(0, 0)]] = Inl IndexError"
  using loose_try[of "sconst 0"] loose_acceptable loose_generate[where quality = cell_count]
  by (simp add: empty_run_def loose_def del: acceptable.simps)

subsection \<open>C2: the search collects attemptc accepted attempts and returns the best\<close>

text \<open>
  Claim C2. The key by which attempts are ranked is the floating-point score of
  \<open>_quality\<close>; it enters as the parameter \<open>quality\<close>, and the statement holds for
  every key into a linear order. When \<open>generate_paths\<close> returns, it has run some
  number \<open>k\<close> of attempts, of which exactly \<open>attemptc\<close> were accepted, the last one
  among them (rejected attempts are not counted); the result is one of the accepted
  attempts, none of them has a higher key, and every accepted attempt found before
  it has a strictly lower key. Conversely, whenever \<open>k\<close> attempts run without an
  exception and the last of them is the \<open>attemptc\<close>-th accepted one, however many were
  rejected in between, \<open>generate_paths\<close> returns one of the accepted attempts.
\<close>

theorem generate_paths_selects_best:
  fixes quality :: "cell list list \<Rightarrow> 'q::linorder"
  shows "(generate_paths quality s g = Some (Inr (best, g')) \<longrightarrow>
           (\<exists>k tries. run_tries s k g = Some (tries, g') \<and> tries \<noteq> [] \<and> accepted s (last tries) \<and>
              int (length (filter (accepted s) tries)) = attemptc s \<and>
              (\<exists>i<length (filter (accepted s) tries). filter (accepted s) tries ! i = best \<and>
                 (\<forall>j<i. quality (filter (accepted s) tries ! j) < quality best) \<and>
                 (\<forall>j<length (filter (accepted s) tries).
                     quality (filter (accepted s) tries ! j) \<le> quality best)))) \<and>
         (run_tries s k g = Some (tries, g') \<and> tries \<noteq> [] \<and> accepted s (last tries) \<and>
          (\<forall>a\<in>set tries. \<exists>b. acceptable s a = Inr b) \<and>
          int (length (filter (accepted s) tries)) = attemptc s \<longrightarrow>
            (\<exists>best. generate_paths quality s g = Some (Inr (best, g')) \<and>
                    best \<in> set (filter (accepted s) tries)))"
proof (intro conjI impI)
  assume gp: "generate_paths quality s g = Some (Inr (best, g'))"
  from generate_paths_unfold[OF gp] obtain a rest where
    ga: "generate_acceptable_paths s (nat (attemptc s)) [] g = Some (Inr (a # rest, g'))"
    and n: "0 \<le> attemptc s" and best: "best = max_by quality a rest" by blast
  from generate_acceptable_forward[OF ga] obtain k tries where
    rt: "run_tries s k g = Some (tries, g')" and coll: "a # rest = filter (accepted s) tries"
    and len: "length (filter (accepted s) tries) = nat (attemptc s)"
    and lst: "tries \<noteq> [] \<longrightarrow> accepted s (last tries)" by auto
  have ne: "tries \<noteq> []" using coll by auto
  from max_by_first[of a rest quality] obtain i where i: "i < length (a # rest)"
    "(a # rest) ! i = best" "\<forall>j<i. quality ((a # rest) ! j) < quality best"
    "\<forall>j<length (a # rest). quality ((a # rest) ! j) \<le> quality best"
    unfolding best by blast
  have "int (length (filter (accepted s) tries)) = attemptc s" using len n by simp
  with rt ne lst i show "\<exists>k tries. run_tries s k g = Some (tries, g') \<and> tries \<noteq> [] \<and> accepted s (last tries) \<and>
              int (length (filter (accepted s) tries)) = attemptc s \<and>
              (\<exists>i<length (filter (accepted s) tries). filter (accepted s) tries ! i = best \<and>
                 (\<forall>j<i. quality (filter (accepted s) tries ! j) < quality best) \<and>
                 (\<forall>j<length (filter (accepted s) tries).
                     quality (filter (accepted s) tries ! j) \<le> quality best))"
    unfolding coll by blast
next
  assume h: "run_tries s k g = Some (tries, g') \<and> tries \<noteq> [] \<and> accepted s (last tries) \<and>
          (\<forall>a\<in>set tries. \<exists>b. acceptable s a = Inr b) \<and>
          int (length (filter (accepted s) tries)) = attemptc s"
  then have n: "0 \<le> attemptc s" "length (filter (accepted s) tries) = nat (attemptc s)" by auto
  from h have "generate_acceptable_paths s (nat (attemptc s)) [] g
      = Some (Inr ([] @ filter (accepted s) tries, g'))"
    by (intro generate_acceptable_backward[where k = k]) (auto simp: n)
  then have ga: "generate_acceptable_paths s (nat (attemptc s)) [] g
      = Some (Inr (filter (accepted s) tries, g'))" by simp
  from h have "last tries \<in> set (filter (accepted s) tries)" by simp
  then obtain a rest where coll: "filter (accepted s) tries = a # rest"
    by (cases "filter (accepted s) tries") auto
  have gp: "generate_paths quality s g = Some (Inr (max_by quality a rest, g'))"
    using ga n(1) coll by (simp add: generate_paths_def)
  from max_by_first[of a rest quality] have "max_by quality a rest \<in> set (a # rest)"
    by (metis nth_mem)
  with gp coll show "\<exists>best. generate_paths quality s g = Some (Inr (best, g')) \<and>
                    best \<in> set (filter (accepted s) tries)" by auto
qed

theorem generate_paths_selects_best_witness:
  "generate_paths cell_count picky two_runs = Some (Inr ([[(0, 1), (0, 0)]], sconst 0)) \<and>
   run_tries picky 2 two_runs = Some ([[[(0, 1)]], [[(0, 1), (0, 0)]]], sconst 0) \<and>
   \<not> accepted picky [[(0, 1)]] \<and> accepted picky [[(0, 1), (0, 0)]] \<and>
   int (length (filter (accepted picky) [[[(0, 1)]], [[(0, 1), (0, 0)]]])) = attemptc picky \<and>
   (\<exists>k tries. run_tries picky k two_runs = Some (tries, sconst 0) \<and> tries \<noteq> [] \<and>
      accepted picky (last tries) \<and>
      int (length (filter (accepted picky) tries)) = attemptc picky \<and>
      (\<exists>i<length (filter (accepted picky) tries). filter (accepted picky) tries ! i = [[(0, 1), (0, 0)]])) \<and>
   (\<exists>best. generate_paths cell_count picky two_runs = Some (Inr (best, sconst 0)) \<and>
      best \<in> set (filter (accepted picky) [[[(0, 1)]], [[(0, 1), (0, 0)]]]))"
proof -
  note run = picky_generate[where quality = cell_count]
  note th = generate_paths_selects_best[of cell_count picky two_runs "[[(0, 1), (0, 0)]]" "sconst 0"
      2 "[[[(0, 1)]], [[(0, 1), (0, 0)]]]"]
  have acc: "\<not> accepted picky [[(0, 1)]]" "accepted picky [[(0, 1), (0, 0)]]"
    by (simp_all add: accepted_def picky_acceptable del: acceptable.simps)
  have len: "int (length (filter (accepted picky) [[[(0, 1)]], [[(0, 1), (0, 0)]]])) = attemptc picky"
    using acc by (simp add: picky_def)
  have noexc: "\<forall>a\<in>set [[[(0 :: int, 1 :: int)]], [[(0, 1), (0, 0)]]]. \<exists>b. acceptable picky a = Inr b"
    using picky_acceptable by (auto simp del: acceptable.simps)
  from th run have fwd: "\<exists>k tries. run_tries picky k two_runs = Some (tries, sconst 0) \<and> tries \<noteq> [] \<and>
      accepted picky (last tries) \<and>
      int (length (filter (accepted picky) tries)) = attemptc picky \<and>
      (\<exists>i<length (filter (accepted picky) tries). filter (accepted picky) tries ! i = [[(0, 1), (0, 0)]])"
    by blast
  have pre: "run_tries picky 2 two_runs = Some ([[[(0, 1)]], [[(0, 1), (0, 0)]]], sconst 0) \<and>
      [[[(0 :: int, 1 :: int)]], [[(0, 1), (0, 0)]]] \<noteq> [] \<and>
      accepted picky (last [[[(0, 1)]], [[(0, 1), (0, 0)]]]) \<and>
      (\<forall>a\<in>set [[[(0 :: int, 1 :: int)]], [[(0, 1), (0, 0)]]]. \<exists>b. acceptable picky a = Inr b) \<and>
      int (length (filter (accepted picky) [[[(0, 1)]], [[(0, 1), (0, 0)]]])) = attemptc picky"
    using picky_run_tries acc(2) noexc len by simp
  from th pre have bwd: "\<exists>best. generate_paths cell_count picky two_runs = Some (Inr (best, sconst 0)) \<and>
      best \<in> set (filter (accepted picky) [[[(0, 1)]], [[(0, 1), (0, 0)]]])"
    by blast
  from run picky_run_tries acc len fwd bwd show ?thesis by blast
qed

subsection \<open>C9: the result is a function of the settings and the values drawn\<close>

text \<open>
  Claim C9. Two calls of \<open>generate_paths\<close> with equal settings and with explicitly
  supplied generators in identical states have the same outcome. More is true: a
  call that returns or raises has made some number \<open>k\<close> of draws, and every call
  with the same settings from a generator that delivers the same values in its
  first \<open>k\<close> draws (a generator in the identical state is one) has the same
  outcome: the same list of paths, cell for cell and in the same order, or the
  same exception; and each call leaves its generator \<open>k\<close> draws further on. So the
  paths are determined by the settings and the values drawn and by nothing else.
  The dictionaries \<open>adj\<close> and \<open>strandi\<close> are read by key only, and the one set that the
  code builds is unpacked into a single cell, which does not depend on the order
  of enumeration (\<open>unpack_any_order\<close>, \<open>walk_any_order\<close>). A call that leaves out
  \<open>rand\<close> draws from the one default object of the module, in the state in which
  earlier calls left it; the statement is about generators that are passed in.
\<close>

theorem generate_paths_deterministic:
  assumes "generate_paths quality s g1 = Some out"
  shows "\<exists>k. (\<forall>paths g1'. out = Inr (paths, g1') \<longrightarrow>
                g1' = sdrop k g1 \<and>
                (\<forall>g2. stake k g2 = stake k g1 \<longrightarrow>
                   generate_paths quality s g2 = Some (Inr (paths, sdrop k g2)))) \<and>
             (\<forall>e. out = Inl e \<longrightarrow>
                (\<forall>g2. stake k g2 = stake k g1 \<longrightarrow> generate_paths quality s g2 = Some (Inl e)))"
proof -
  from generate_paths_draws[OF assms] obtain k where
    k: "\<And>h. stake k h = stake k g1 \<Longrightarrow> generate_paths quality s h = Some (reseat k h out)"
    by blast
  have "(\<forall>paths g1'. out = Inr (paths, g1') \<longrightarrow>
                g1' = sdrop k g1 \<and>
                (\<forall>g2. stake k g2 = stake k g1 \<longrightarrow>
                   generate_paths quality s g2 = Some (Inr (paths, sdrop k g2)))) \<and>
             (\<forall>e. out = Inl e \<longrightarrow>
                (\<forall>g2. stake k g2 = stake k g1 \<longrightarrow> generate_paths quality s g2 = Some (Inl e)))"
  proof (intro conjI allI impI)
    fix paths g1' assume out: "out = Inr (paths, g1')"
    from k[OF refl] assms out show "g1' = sdrop k g1" by simp
  next
    fix paths g1' g2 assume "out = Inr (paths, g1')" "stake k g2 = stake k g1"
    with k[of g2] show "generate_paths quality s g2 = Some (Inr (paths, sdrop k g2))" by simp
  next
    fix e g2 assume "out = Inl e" "stake k g2 = stake k g1"
    with k[of g2] show "generate_paths quality s g2 = Some (Inl e)" by simp
  qed
  then show ?thesis by (rule exI[of _ k])
qed

theorem generate_paths_deterministic_witness:
  "generate_paths cell_count picky two_runs = Some (Inr ([[(0, 1), (0, 0)]], sconst 0)) \<and>
   (\<exists>k. sconst 0 = sdrop k two_runs \<and>
      generate_paths cell_count picky (stake k two_runs @- sconst 7)
        = Some (Inr ([[(0, 1), (0, 0)]], sconst 7)))"
proof -
  have run: "generate_paths cell_count picky two_runs = Some (Inr ([[(0, 1), (0, 0)]], sconst 0))"
    by (rule picky_generate)
  from generate_paths_deterministic[OF run] obtain k where
    "\<forall>paths g1'. (Inr ([[(0, 1), (0, 0)]], sconst 0) :: error + cell list list \<times> rng)
          = Inr (paths, g1') \<longrightarrow>
        g1' = sdrop k two_runs \<and>
        (\<forall>g2. stake k g2 = stake k two_runs \<longrightarrow>
           generate_paths cell_count picky g2 = Some (Inr (paths, sdrop k g2)))"
    by (elim exE conjE) blast
  then have k: "sconst 0 = sdrop k two_runs"
      "\<And>g2. stake k g2 = stake k two_runs \<Longrightarrow>
         generate_paths cell_count picky g2 = Some (Inr ([[(0, 1), (0, 0)]], sdrop k g2))"
    by simp_all
  have "stake k (stake k two_runs @- sconst 7) = stake k two_runs"
    by (simp add: stake_shift)
  from k(2)[OF this] have "generate_paths cell_count picky (stake k two_runs @- sconst 7)
        = Some (Inr ([[(0, 1), (0, 0)]], sconst 7))"
    by (simp add: sdrop_shift)
  with run k(1) show ?thesis by blast
qed

subsection \<open>C8: the longest strands are cleansed\<close>

text \<open>
  Claim C8. In each attempt the strands are shuffled and then sorted, stably, by
  descending length, so that strands of equal length stay in the order the shuffle
  gave them; the first \<open>endcl\<close> of them (all, if there are fewer) are cleansed, none
  of them shorter than a strand that is left out; the strands left out contribute
  nothing; and the list of cleansed paths is shuffled before it is returned.
\<close>

theorem longest_strands_are_cleansed:
  assumes "try_generating_paths s g = Some (Inr (paths, g'))"
  shows "\<exists>st sh g1 ps g2.
     build_strands s (init_state (r s) (c s) g) = Some (Inr st) \<and>
     shuffle (strands st) (rand st) = (sh, g1) \<and> mset sh = mset (strands st) \<and>
     (let srt = sort_key (\<lambda>strand. - int (length strand)) sh; sel = take (nat (endcl s)) srt in
        mset srt = mset (strands st) \<and>
        sorted_wrt (\<lambda>a b. length b \<le> length a) srt \<and>
        (\<forall>n. filter (\<lambda>strand. length strand = n) srt = filter (\<lambda>strand. length strand = n) sh) \<and>
        int (length sel) = min (endcl s) (int (length (strands st))) \<and>
        (\<forall>a\<in>set sel. \<forall>b\<in>set (drop (nat (endcl s)) srt). length b \<le> length a) \<and>
        cleanse_all s (adj st) sel g1 = Some (Inr (ps, g2)) \<and>
        list_all2 (\<lambda>strand path. \<exists>h h'. cleanse s (adj st) strand h = Some (Inr (path, h'))) sel ps \<and>
        shuffled g2 ps = (paths, g') \<and> mset paths = mset ps \<and> length paths = length sel)"
proof -
  from try_generating_paths_unfold[OF assms] obtain st sh g1 ps g2 where
    b: "build_strands s (init_state (r s) (c s) g) = Some (Inr st)"
    and sh: "shuffle (strands st) (rand st) = (sh, g1)" and e: "0 \<le> endcl s"
    and ca: "cleanse_all s (adj st) (take (nat (endcl s)) (sort_key (\<lambda>strand. - int (length strand)) sh)) g1
             = Some (Inr (ps, g2))"
    and sp: "shuffled g2 ps = (paths, g')" by blast
  define srt where "srt = sort_key (\<lambda>strand. - int (length strand)) sh"
  define sel where "sel = take (nat (endcl s)) srt"
  have msh: "mset sh = mset (strands st)" using shuffle_mset[of "strands st" "rand st"] sh by simp
  have ms: "mset srt = mset (strands st)" unfolding srt_def using msh by simp
  have sw: "sorted_wrt (\<lambda>a b. length b \<le> length a) srt" unfolding srt_def by (rule sort_desc_length)
  have stab: "\<forall>n. filter (\<lambda>strand. length strand = n) srt = filter (\<lambda>strand. length strand = n) sh"
    unfolding srt_def by (simp add: sort_desc_stable)
  have "length srt = length (strands st)" using ms by (metis size_mset)
  then have len: "int (length sel) = min (endcl s) (int (length (strands st)))"
    unfolding sel_def using e by simp
  have longest: "\<forall>a\<in>set sel. \<forall>b\<in>set (drop (nat (endcl s)) srt). length b \<le> length a"
    unfolding sel_def using sorted_wrt_take_drop[OF sw] by blast
  have ca': "cleanse_all s (adj st) sel g1 = Some (Inr (ps, g2))" using ca by (simp add: sel_def srt_def)
  have rel: "list_all2 (\<lambda>strand path. \<exists>h h'. cleanse s (adj st) strand h = Some (Inr (path, h'))) sel ps"
    using cleanse_all_rel[OF ca'] .
  have mp: "mset paths = mset ps" using shuffled_mset[of g2 ps] sp by simp
  have lp: "length paths = length sel"
    using mp list_all2_lengthD[OF rel] by (metis size_mset)
  note facts = b sh msh ms sw stab len longest ca' rel sp mp lp
  show ?thesis
    unfolding Let_def
    apply (rule exI[where x = st], rule exI[where x = sh], rule exI[where x = g1],
        rule exI[where x = ps], rule exI[where x = g2])
    using facts[unfolded sel_def srt_def] by (intro conjI) assumption+
qed

theorem longest_strands_are_cleansed_witness:
  "try_generating_paths quad (sconst 0)
     = Some (Inr ([[(0, 1), (0, 0)], [(0, 2), (0, 3)]], sconst 0)) \<and>
   build_strands quad (init_state (r quad) (c quad) (sconst 0)) = Some (Inr quad_final) \<and>
   shuffle (strands quad_final) (rand quad_final) = ([[(0, 2), (0, 3)], [(0, 1), (0, 0)]], sconst 0) \<and>
   take (nat (endcl quad)) (sort_key (\<lambda>strand. - int (length strand)) [[(0 :: int, 2 :: int), (0, 3)], [(0, 1), (0, 0)]])
     = [[(0, 2), (0, 3)], [(0, 1), (0, 0)]] \<and>
   (\<exists>st sh g1 ps g2.
     build_strands quad (init_state (r quad) (c quad) (sconst 0)) = Some (Inr st) \<and>
     shuffle (strands st) (rand st) = (sh, g1) \<and> mset sh = mset (strands st) \<and>
     (let srt = sort_key (\<lambda>strand. - int (length strand)) sh; sel = take (nat (endcl quad)) srt in
        mset srt = mset (strands st) \<and>
        sorted_wrt (\<lambda>a b. length b \<le> length a) srt \<and>
        int (length sel) = min (endcl quad) (int (length (strands st))) \<and>
        cleanse_all quad (adj st) sel g1 = Some (Inr (ps, g2)) \<and>
        shuffled g2 ps = ([[(0, 1), (0, 0)], [(0, 2), (0, 3)]], sconst 0) \<and>
        mset [[(0, 1), (0, 0)], [(0, 2), (0, 3)]] = mset ps))"
proof -
  have b: "build_strands quad (init_state (r quad) (c quad) (sconst 0)) = Some (Inr quad_final)"
    using quad_build by (simp add: quad_def)
  have s: "shuffle (strands quad_final) (rand quad_final) = ([[(0, 2), (0, 3)], [(0, 1), (0, 0)]], sconst 0)"
    using quad_shuffle_strands by (simp add: quad_final_def)
  have t: "take (nat (endcl quad)) (sort_key (\<lambda>strand. - int (length strand)) [[(0 :: int, 2 :: int), (0, 3)], [(0, 1), (0, 0)]])
     = [[(0, 2), (0, 3)], [(0, 1), (0, 0)]]"
    by (simp add: quad_def)
  from longest_strands_are_cleansed[OF quad_try] have "\<exists>st sh g1 ps g2.
     build_strands quad (init_state (r quad) (c quad) (sconst 0)) = Some (Inr st) \<and>
     shuffle (strands st) (rand st) = (sh, g1) \<and> mset sh = mset (strands st) \<and>
     (let srt = sort_key (\<lambda>strand. - int (length strand)) sh; sel = take (nat (endcl quad)) srt in
        mset srt = mset (strands st) \<and>
        sorted_wrt (\<lambda>a b. length b \<le> length a) srt \<and>
        int (length sel) = min (endcl quad) (int (length (strands st))) \<and>
        cleanse_all quad (adj st) sel g1 = Some (Inr (ps, g2)) \<and>
        shuffled g2 ps = ([[(0, 1), (0, 0)], [(0, 2), (0, 3)]], sconst 0) \<and>
        mset [[(0, 1), (0, 0)], [(0, 2), (0, 3)]] = mset ps)"
    unfolding Let_def by blast
  with quad_try b s t show ?thesis by blast
qed

subsection \<open>C7: entries of strandi\<close>

text \<open>
  Claim C7, as amended. Once a cell is entered into \<open>strandi\<close> its stored index is
  never changed for the rest of the run: every iteration of the frontier loop,
  every round and the whole builder only extend the mapping. The stored value is
  the index, in the \<open>strands\<close> list of the round in which the cell was entered, of
  the strand that holds the cell, up to the end of that round's frontier loop. The
  pruning at the end of a round removes one-cell strands from the list without
  renumbering, so the claim's "always the index in the current strands list" does
  not hold afterwards.
\<close>

theorem strandi_never_reassigned:
  "(grow_step rows cols seeds st = Inr (seeds', st') \<longrightarrow> strandi st \<subseteq>\<^sub>m strandi st') \<and>
   (round_grow s st = Inr st2 \<longrightarrow> strandi st \<subseteq>\<^sub>m strandi st2) \<and>
   (build_round s st = Inr st' \<longrightarrow> strandi st \<subseteq>\<^sub>m strandi st') \<and>
   (build_strands s st = Some (Inr st') \<longrightarrow> strandi st \<subseteq>\<^sub>m strandi st') \<and>
   (round_grow s st = Inr st2 \<longrightarrow>
      (\<forall>x k. strandi st2 x = Some k \<and> strandi st x = None \<longrightarrow>
         k < length (strands st2) \<and> x \<in> set (strands st2 ! k)))"
proof (intro conjI impI allI)
  assume "grow_step rows cols seeds st = Inr (seeds', st')"
  then show "strandi st \<subseteq>\<^sub>m strandi st'" by (rule grow_step_le)
next
  assume "round_grow s st = Inr st2"
  then show "strandi st \<subseteq>\<^sub>m strandi st2" by (rule round_grow_le)
next
  assume "build_round s st = Inr st'"
  then show "strandi st \<subseteq>\<^sub>m strandi st'" by (rule build_round_le)
next
  assume "build_strands s st = Some (Inr st')"
  from build_strands_le[OF this] show "strandi st \<subseteq>\<^sub>m strandi st'" by simp
next
  fix x k
  assume rg: "round_grow s st = Inr st2" and xk: "strandi st2 x = Some k \<and> strandi st x = None"
  from xk have "x \<notin> dom (strandi st)" by auto
  with round_grow_new_index[OF rg] xk show "k < length (strands st2)" "x \<in> set (strands st2 ! k)"
    unfolding new_index_def by blast+
qed

theorem strandi_never_reassigned_witness:
  "round_grow tiny (init_state 1 3 (0 ## Suc 0 ## sconst 0)) = Inr tiny_grown \<and>
   build_round tiny (init_state 1 3 (0 ## Suc 0 ## sconst 0)) = Inr tiny_shifted \<and>
   build_strands tiny (init_state 1 3 (0 ## Suc 0 ## sconst 0)) = Some (Inr tiny_shifted) \<and>
   strandi (init_state 1 3 (0 ## Suc 0 ## sconst 0)) \<subseteq>\<^sub>m strandi tiny_grown \<and>
   strandi (init_state 1 3 (0 ## Suc 0 ## sconst 0)) \<subseteq>\<^sub>m strandi tiny_shifted \<and>
   strandi tiny_grown (0, 1) = Some 1 \<and> strandi (init_state 1 3 (0 ## Suc 0 ## sconst 0)) (0, 1) = None \<and>
   1 < length (strands tiny_grown) \<and> (0, 1) \<in> set (strands tiny_grown ! 1)"
proof -
  note th = strandi_never_reassigned[of 1 3 "[]" "init_state 1 3 (0 ## Suc 0 ## sconst 0)" "[]"
      tiny_shifted tiny tiny_grown]
  have a: "strandi tiny_grown (0, 1) = Some 1" by (simp add: tiny_grown_def)
  have b: "strandi (init_state 1 3 (0 ## Suc 0 ## sconst 0)) (0, 1) = None" by (simp add: init_state_def)
  from th shifted_round_grow shifted_round shifted_build
  have le: "strandi (init_state 1 3 (0 ## Suc 0 ## sconst 0)) \<subseteq>\<^sub>m strandi tiny_grown"
    "strandi (init_state 1 3 (0 ## Suc 0 ## sconst 0)) \<subseteq>\<^sub>m strandi tiny_shifted"
    by blast+
  from th shifted_round_grow have "\<forall>x k. strandi tiny_grown x = Some k \<and>
      strandi (init_state 1 3 (0 ## Suc 0 ## sconst 0)) x = None \<longrightarrow>
         k < length (strands tiny_grown) \<and> x \<in> set (strands tiny_grown ! k)" by blast
  with a b have c: "1 < length (strands tiny_grown)" "(0, 1) \<in> set (strands tiny_grown ! 1)"
    by blast+
  from shifted_round_grow shifted_round shifted_build le a b c show ?thesis by blast
qed

text \<open>
  The claim as written fails after a round that drops a one-cell strand: with the
  generator \<open>0, 1, 0, 0, ...\<close> the cell \<open>(0, 2)\<close> is seeded first and cannot grow, its
  strand is dropped, and at the exit of the builder \<open>(0, 1)\<close> still carries index 1
  while its strand is the only one left, at index 0; \<open>(0, 2)\<close> carries index 0, the
  index of a strand that does not hold it.
\<close>

theorem stored_index_counterexample:
  "build_strands tiny (init_state (r tiny) (c tiny) (0 ## Suc 0 ## sconst 0)) = Some (Inr tiny_shifted) \<and>
   strands tiny_shifted = [[(0, 1), (0, 0)]] \<and>
   strandi tiny_shifted (0, 1) = Some 1 \<and>
   (0, 1) \<in> set (strands tiny_shifted ! 0) \<and>
   \<not> 1 < length (strands tiny_shifted) \<and>
   strandi tiny_shifted (0, 2) = Some 0 \<and> (0, 2) \<notin> set (strands tiny_shifted ! 0)"
proof -
  have b: "build_strands tiny (init_state (r tiny) (c tiny) (0 ## Suc 0 ## sconst 0)) = Some (Inr tiny_shifted)"
    using shifted_build by (simp add: tiny_def)
  have "strands tiny_shifted = [[(0, 1), (0, 0)]]" "strandi tiny_shifted (0, 1) = Some 1"
    "(0, 1) \<in> set (strands tiny_shifted ! 0)" "\<not> 1 < length (strands tiny_shifted)"
    "strandi tiny_shifted (0, 2) = Some 0" "(0, 2) \<notin> set (strands tiny_shifted ! 0)"
    by (simp_all add: tiny_shifted_def)
  with b show ?thesis by blast
qed

end
